theory Spec2Isabelle
  imports Complex_Main "HOL-Library.Multiset" "HOL-Library.AList"
begin

section \<open>Label data model (renderer.js)\<close>

text \<open>
  The four label types name the keys of a \<open>label_indexes\<close> object. The literal arrays of
  label types in \<open>handleGraphRightClick\<close> and \<open>eraseAtPositionNoUpdate\<close>, and the object
  literal of every initialiser, list them in the order of \<open>labelTypes\<close>.
\<close>

datatype label_type =
    compression_systolic_points
  | compression_diastolic_points
  | spontaneous_systolic_points
  | spontaneous_diastolic_points

definition labelTypes :: "label_type list" where
  "labelTypes = [compression_systolic_points, compression_diastolic_points,
                 spontaneous_systolic_points, spontaneous_diastolic_points]"

definition TOLERANCE :: int where
  "TOLERANCE = 5"

definition ERASER_TOLERANCE :: int where
  "ERASER_TOLERANCE = 8"

text \<open>
  A segment's record. \<open>label_indexes\<close> is the stored object itself: the list of its entries
  (key and array of sample indices) in the order in which \<open>for ... in\<close> visits the keys, each
  key listed once. A record made by an initialiser has the four keys in the order of
  \<open>labelTypes\<close>; a record that \<open>loadFile\<close> took from a label file has the keys of that file in
  the order of that file, and may lack some. \<open>label_indexes[labelType]\<close> is \<open>map_of\<close>, with
  \<open>None\<close> for \<open>undefined\<close>; an assignment to or a splice of \<open>label_indexes[labelType]\<close> is
  \<open>AList.update\<close>, which keeps the place of an existing key and appends a new one.

  \<open>review\<close> is read with \<open>=== true\<close> and toggled with \<open>!\<close>, so an absent field behaves as
  \<open>False\<close>. The two notes are read with \<open>|| ''\<close> and the regions are created empty before
  the first one is pushed, so an absent note is the empty string and absent regions are the
  empty list.
\<close>

record segment =
  labeled :: bool
  review :: bool
  review_note :: string
  label_indexes :: "(label_type \<times> int list) list"
  highlighted_regions :: "(int \<times> int) list"
  region_note :: string

definition emptyIndexes :: "(label_type \<times> int list) list" where
  "emptyIndexes =
     [(compression_systolic_points, []), (compression_diastolic_points, []),
      (spontaneous_systolic_points, []), (spontaneous_diastolic_points, [])]"

text \<open>The object literal written by every \<open>if (!state.labels[segmentId])\<close> initialiser.\<close>

definition defaultSegment :: "bool \<Rightarrow> segment" where
  "defaultSegment l =
     \<lparr>labeled = l, review = False, review_note = [], label_indexes = emptyIndexes,
      highlighted_regions = [], region_note = []\<rparr>"

text \<open>\<open>Array.prototype.findIndex\<close>: position of the first element satisfying the predicate.\<close>

fun findIndex :: "('a \<Rightarrow> bool) \<Rightarrow> 'a list \<Rightarrow> nat option" where
  "findIndex P [] = None"
| "findIndex P (x # xs) = (if P x then Some 0 else map_option Suc (findIndex P xs))"

text \<open>\<open>arr.splice(i, 1)\<close>: the array without the element at position \<open>i\<close>.\<close>

definition splice1 :: "nat \<Rightarrow> 'a list \<Rightarrow> 'a list" where
  "splice1 i xs = take i xs @ drop (Suc i) xs"

text \<open>\<open>Math.abs(idx - clickedIndex) <= tol\<close>\<close>

definition near :: "int \<Rightarrow> int \<Rightarrow> int \<Rightarrow> bool" where
  "near tol clickedIndex idx \<longleftrightarrow> \<bar>idx - clickedIndex\<bar> \<le> tol"

text \<open>
  Two ways of speaking about the points of a stored object: no array of it holds an index
  within \<open>tol\<close> of \<open>x\<close>; and the points of the four types, one type after the other.
\<close>

definition noneNear :: "int \<Rightarrow> int \<Rightarrow> (label_type \<times> int list) list \<Rightarrow> bool" where
  "noneNear tol x li \<longleftrightarrow>
     list_all (\<lambda>t. case map_of li t of
                     None \<Rightarrow> True
                   | Some labelArray \<Rightarrow> list_all (\<lambda>q. \<not> near tol x q) labelArray) labelTypes"

definition allPoints :: "(label_type \<times> int list) list \<Rightarrow> int list" where
  "allPoints li =
     concat (map (\<lambda>t. case map_of li t of None \<Rightarrow> [] | Some labelArray \<Rightarrow> labelArray) labelTypes)"


section \<open>Application state\<close>

text \<open>
  The fields of the global \<open>state\<close> object that the editing handlers, the review and done
  toggles and the auto-save scheduler read or write. \<open>labels\<close> is the object keyed by
  \<open>currentSegment.toString()\<close>, kept as an association list. The last four fields are the
  environment the scheduler talks to: a millisecond clock, the timeouts armed with
  \<open>setTimeout\<close> (due time and handle), the next handle, and the number of calls of the
  persistence interface \<open>window.electronAPI.saveLabels\<close> made so far. Handles are positive,
  so a stored handle is truthy.
\<close>

record app_state =
  currentFile :: "string option"
  fileData :: bool
  sampling_rate :: "rat option"
  doneFiles :: "string list"
  reviewFiles :: "string list"
  segmentCount :: nat
  currentSegment :: nat
  labels :: "(nat \<times> segment) list"
  currentLabelType :: label_type
  regionSelectionMode :: bool
  regionStart :: "int option"
  regionEnd :: "int option"
  labelsDirty :: bool
  autoSaveTimeout :: "nat option"
  eraserActive :: bool
  eraserModified :: bool
  lastHoverData :: "rat option"
  clock :: nat
  timers :: "(nat \<times> nat) list"
  nextTimer :: nat
  saveCalls :: nat

text \<open>The state the script starts with, before any file or folder is opened.\<close>

definition initialState :: app_state where
  "initialState =
     \<lparr>currentFile = None, fileData = False, sampling_rate = None, doneFiles = [],
      reviewFiles = [], segmentCount = 0, currentSegment = 0, labels = [],
      currentLabelType = compression_systolic_points, regionSelectionMode = False,
      regionStart = None, regionEnd = None, labelsDirty = False, autoSaveTimeout = None,
      eraserActive = False, eraserModified = False, lastHoverData = None,
      clock = 0, timers = [], nextTimer = 1, saveCalls = 0\<rparr>"

text \<open>
  \<open>state.labels[segmentId]\<close>, with the record an initialiser would create when the key is
  absent; the flag is the initialiser's \<open>labeled\<close> value.
\<close>

definition currentLabels :: "bool \<Rightarrow> app_state \<Rightarrow> segment" where
  "currentLabels l s =
     (case map_of (labels s) (currentSegment s) of
        None \<Rightarrow> defaultSegment l
      | Some seg \<Rightarrow> seg)"

definition setCurrentLabels :: "segment \<Rightarrow> app_state \<Rightarrow> app_state" where
  "setCurrentLabels seg s = s\<lparr>labels := AList.update (currentSegment s) seg (labels s)\<rparr>"

section \<open>Auto-save scheduler (renderer.js, markLabelsDirty .. saveIfDirty)\<close>

definition clearTimeout :: "nat \<Rightarrow> (nat \<times> nat) list \<Rightarrow> (nat \<times> nat) list" where
  "clearTimeout h ts = filter (\<lambda>(due, h'). h' \<noteq> h) ts"

definition scheduleAutoSave :: "app_state \<Rightarrow> app_state" where
  "scheduleAutoSave s =
     (let ts = (case autoSaveTimeout s of
                  Some h \<Rightarrow> clearTimeout h (timers s)
                | None \<Rightarrow> timers s)
      in s\<lparr>timers := ts @ [(clock s + 2000, nextTimer s)],
            autoSaveTimeout := Some (nextTimer s),
            nextTimer := Suc (nextTimer s)\<rparr>)"

definition markLabelsDirty :: "app_state \<Rightarrow> app_state" where
  "markLabelsDirty s = scheduleAutoSave (s\<lparr>labelsDirty := True\<rparr>)"

text \<open>
  \<open>saveLabels\<close>: without a current file it returns at once; otherwise it calls the
  persistence interface once and clears the dirty flag when that call reports success
  (\<open>ok\<close> is the \<open>success\<close> field of the reply).
\<close>

definition saveLabels :: "bool \<Rightarrow> app_state \<Rightarrow> app_state" where
  "saveLabels ok s =
     (if currentFile s = None then s
      else s\<lparr>saveCalls := Suc (saveCalls s),
             labelsDirty := (if ok then False else labelsDirty s)\<rparr>)"

definition saveIfDirty :: "bool \<Rightarrow> app_state \<Rightarrow> app_state" where
  "saveIfDirty ok s =
     (if labelsDirty s \<and> currentFile s \<noteq> None then
        saveLabels ok
          (case autoSaveTimeout s of
             Some h \<Rightarrow> s\<lparr>timers := clearTimeout h (timers s), autoSaveTimeout := None\<rparr>
           | None \<Rightarrow> s)
      else s)"

text \<open>The callback armed by \<open>scheduleAutoSave\<close>.\<close>

definition autoSaveCallback :: "bool \<Rightarrow> app_state \<Rightarrow> app_state" where
  "autoSaveCallback ok s =
     (if labelsDirty s \<and> currentFile s \<noteq> None then saveLabels ok s else s)"

fun fireAll :: "bool \<Rightarrow> (nat \<times> nat) list \<Rightarrow> app_state \<Rightarrow> app_state" where
  "fireAll ok [] s = s"
| "fireAll ok (t # ts) s = fireAll ok ts (autoSaveCallback ok s)"

text \<open>
  \<open>d\<close> milliseconds pass: every armed timeout that has become due is taken off the queue
  and its callback runs, in the order the timeouts were armed.
\<close>

definition elapse :: "nat \<Rightarrow> bool \<Rightarrow> app_state \<Rightarrow> app_state" where
  "elapse d ok s =
     (let t = clock s + d in
      fireAll ok (filter (\<lambda>(due, h). due \<le> t) (timers s))
        (s\<lparr>clock := t, timers := filter (\<lambda>(due, h). \<not> due \<le> t) (timers s)\<rparr>))"

text \<open>
  What the rest of the script does to the scheduler: it marks the labels dirty, it flushes
  before navigation, and time passes. \<open>ok\<close> is the outcome of the persistence call a step
  may make.
\<close>

datatype sched_event = MarkDirty | Flush bool | Elapse nat bool

fun schedStep :: "sched_event \<Rightarrow> app_state \<Rightarrow> app_state" where
  "schedStep MarkDirty s = markLabelsDirty s"
| "schedStep (Flush ok) s = saveIfDirty ok s"
| "schedStep (Elapse d ok) s = elapse d ok s"

fun schedRun :: "sched_event list \<Rightarrow> app_state \<Rightarrow> app_state" where
  "schedRun [] s = s"
| "schedRun (e # es) s = schedRun es (schedStep e s)"

fun isElapse :: "sched_event \<Rightarrow> bool" where
  "isElapse (Elapse d ok) = True"
| "isElapse e = False"

text \<open>Every armed timeout is the one whose handle is stored in \<open>autoSaveTimeout\<close>.\<close>

definition timerInv :: "app_state \<Rightarrow> bool" where
  "timerInv s \<longleftrightarrow> (\<forall>(due, h)\<in>set (timers s). autoSaveTimeout s = Some h)"

section \<open>Display refresh (renderer.js, updateDisplay)\<close>

text \<open>
  An uncaught \<open>TypeError\<close> ends the handler in which it is thrown and leaves the state as
  written up to that point; the page goes on with the next event. A handler that can end
  this way returns how it ended together with the state it leaves.
\<close>

datatype ended = Returns | Throws

text \<open>
  \<open>updateDisplay\<close> runs \<open>updateSegmentInfo\<close>, \<open>updateLabelCounts\<close>, \<open>updateReviewButton\<close>,
  \<open>updateRegionNote\<close>, \<open>updateGraph\<close> and \<open>focusKeyboardInput\<close>. They write to the page only.
  \<open>updateLabelCounts\<close> takes \<open>.length\<close> of each of the four arrays of the current segment's
  record (of a default record when there is none) without a check, so it throws when a key
  is missing; the others read the label arrays with \<open>|| []\<close>. The value is whether the
  function returns.
\<close>

definition updateLabelCounts :: "app_state \<Rightarrow> bool" where
  "updateLabelCounts s =
     list_all (\<lambda>t. map_of (label_indexes (currentLabels False s)) t \<noteq> None) labelTypes"

definition updateDisplay :: "app_state \<Rightarrow> bool" where
  "updateDisplay s = updateLabelCounts s"

text \<open>
  The common tail \<open>updateDisplay(); markLabelsDirty();\<close> of the handlers that change
  points.
\<close>

definition updateDisplay_markLabelsDirty :: "app_state \<Rightarrow> ended \<times> app_state" where
  "updateDisplay_markLabelsDirty s =
     (if updateDisplay s then (Returns, markLabelsDirty s) else (Throws, s))"

text \<open>
  \<open>loadFile\<close> on the path on which the file loads: the labels are flushed, the file name,
  the data, the sampling rate of the metadata and the segments are stored, the labels are
  whatever the label interface replied (\<open>labelsResult.labels\<close>, unchecked, or the empty
  object when the call failed) and the first segment is shown. The \<open>updateDisplay\<close> that
  ends it comes after the last write to the state.
\<close>

definition loadFile ::
  "string \<Rightarrow> rat option \<Rightarrow> nat \<Rightarrow> bool \<times> (nat \<times> segment) list \<Rightarrow> bool \<Rightarrow> app_state \<Rightarrow> app_state" where
  "loadFile filename rate segments labelsResult ok s =
     (saveIfDirty ok s)
       \<lparr>currentFile := Some filename, fileData := True, sampling_rate := rate,
        segmentCount := segments,
        labels := (if fst labelsResult then snd labelsResult else []),
        currentSegment := 0\<rparr>"

section \<open>Normal-mode click (renderer.js, handleDirectClick)\<close>

text \<open>
  The loop that \<open>handleDirectClick\<close> and \<open>handleGraphRightClick\<close> share, over the label
  types given: the array of the type is read from the stored object, and at the first type
  whose array holds an index within \<open>TOLERANCE\<close> of the click that element is spliced out
  and the loop breaks. \<open>findIndex\<close> is called on what was read, so a type without an array
  throws a \<open>TypeError\<close>. \<open>NotFound\<close> is \<open>foundAndRemoved = false\<close> at the end of the loop.
\<close>

datatype scan_result =
    NotFound
  | Removed "(label_type \<times> int list) list"
  | FindIndexOfUndefined

fun removeNearby ::
  "int \<Rightarrow> label_type list \<Rightarrow> (label_type \<times> int list) list \<Rightarrow> scan_result" where
  "removeNearby clickedIndex [] li = NotFound"
| "removeNearby clickedIndex (labelType # rest) li =
     (case map_of li labelType of
        None \<Rightarrow> FindIndexOfUndefined
      | Some labelArray \<Rightarrow>
          (case findIndex (near TOLERANCE clickedIndex) labelArray of
             Some nearbyIndex \<Rightarrow>
               Removed (AList.update labelType (splice1 nearbyIndex labelArray) li)
           | None \<Rightarrow> removeNearby clickedIndex rest li))"

text \<open>
  The toggle on one segment record. The scan runs over the keys of the stored object
  (\<open>for (const labelType in ...label_indexes)\<close>), so every type it visits has an array.
  When nothing was removed, the array of the current label type is read, and \<open>push\<close> and
  \<open>sort((a, b) => a - b)\<close> are called on it; this throws when the object has no such key.
  Then \<open>labeled = true\<close>. \<open>FoundAndRemoved\<close> and \<open>Added\<close> are the two values of
  \<open>foundAndRemoved\<close> with the record as it then is.
\<close>

datatype toggle_result =
    FoundAndRemoved segment
  | Added segment
  | PushOfUndefined

definition toggleSegment :: "int \<Rightarrow> label_type \<Rightarrow> segment \<Rightarrow> toggle_result" where
  "toggleSegment clickedIndex labelType seg =
     (case removeNearby clickedIndex (map fst (label_indexes seg)) (label_indexes seg) of
        Removed li \<Rightarrow> FoundAndRemoved (seg\<lparr>labeled := True, label_indexes := li\<rparr>)
      | FindIndexOfUndefined \<Rightarrow> PushOfUndefined
      | NotFound \<Rightarrow>
          (case map_of (label_indexes seg) labelType of
             None \<Rightarrow> PushOfUndefined
           | Some labelArray \<Rightarrow>
               Added (seg\<lparr>labeled := True,
                          label_indexes :=
                            AList.update labelType (sort (labelArray @ [clickedIndex]))
                              (label_indexes seg)\<rparr>)))"

text \<open>
  \<open>handleDirectClick\<close> from the computation of \<open>segmentId\<close> on, for a click that maps to
  the sample index \<open>clickedIndex\<close>: the record is created when absent, toggled, and the
  handler ends with \<open>updateDisplay(); markLabelsDirty();\<close>. When the toggle throws, the
  record is as it was found.
\<close>

definition handleDirectClick_index :: "int \<Rightarrow> app_state \<Rightarrow> ended \<times> app_state" where
  "handleDirectClick_index clickedIndex s =
     (case toggleSegment clickedIndex (currentLabelType s) (currentLabels False s) of
        FoundAndRemoved seg \<Rightarrow> updateDisplay_markLabelsDirty (setCurrentLabels seg s)
      | Added seg \<Rightarrow> updateDisplay_markLabelsDirty (setCurrentLabels seg s)
      | PushOfUndefined \<Rightarrow> (Throws, setCurrentLabels (currentLabels False s) s))"

text \<open>
  \<open>selectLabelType\<close> stores the type and calls \<open>updateGraph\<close>, which draws the plot of the
  current segment and registers the handlers of the graph; it reads the label arrays with
  \<open>|| []\<close>.
\<close>

definition selectLabelType :: "label_type \<Rightarrow> app_state \<Rightarrow> app_state" where
  "selectLabelType labelType s = s\<lparr>currentLabelType := labelType\<rparr>"

section \<open>Right click (renderer.js, handleGraphRightClick)\<close>

text \<open>
  \<open>state.metadata ? state.metadata.sampling_rate : 250\<close>, and \<open>Math.round\<close>, which rounds
  halves towards plus infinity. Times and rates that come from the plotted data are finite
  and are kept as rationals.
\<close>

definition samplingRate :: "app_state \<Rightarrow> rat" where
  "samplingRate s = (case sampling_rate s of Some r \<Rightarrow> r | None \<Rightarrow> 250)"

definition Math_round :: "rat \<Rightarrow> int" where
  "Math_round r = \<lfloor>r + 1 / 2\<rfloor>"

text \<open>
  The \<open>contextmenu\<close> callback. Its loop runs over the literal array of the four label
  types, whatever keys the stored object has.
\<close>

definition handleGraphRightClick :: "app_state \<Rightarrow> ended \<times> app_state" where
  "handleGraphRightClick s =
     (case lastHoverData s of
        None \<Rightarrow> (Returns, s)
      | Some clickedTime \<Rightarrow>
          (case map_of (labels s) (currentSegment s) of
             None \<Rightarrow> (Returns, s)
           | Some seg \<Rightarrow>
               (case removeNearby (Math_round (clickedTime * samplingRate s)) labelTypes
                       (label_indexes seg) of
                  NotFound \<Rightarrow> (Returns, s)
                | FindIndexOfUndefined \<Rightarrow> (Throws, s)
                | Removed li \<Rightarrow>
                    updateDisplay_markLabelsDirty
                      (setCurrentLabels (seg\<lparr>labeled := True, label_indexes := li\<rparr>) s))))"


section \<open>Eraser (renderer.js, handleEraserMouseDown .. eraseAtPositionNoUpdate)\<close>

text \<open>
  The inner loop of \<open>eraseAtPositionNoUpdate\<close> runs \<open>i\<close> from \<open>length - 1\<close> down to \<open>0\<close> and
  splices out every element within \<open>ERASER_TOLERANCE\<close>; the flag records whether a splice
  happened. The first argument counts the positions still to visit.
\<close>

fun eraseLoop :: "int \<Rightarrow> nat \<Rightarrow> int list \<times> bool \<Rightarrow> int list \<times> bool" where
  "eraseLoop clickedIndex 0 (arr, removed) = (arr, removed)"
| "eraseLoop clickedIndex (Suc i) (arr, removed) =
     eraseLoop clickedIndex i
       (if near ERASER_TOLERANCE clickedIndex (arr ! i) then (splice1 i arr, True)
        else (arr, removed))"

text \<open>
  The outer loop over the literal array of the four label types; a type whose array is
  missing or empty is passed over (\<open>if (!labelArray || labelArray.length === 0) continue\<close>).
\<close>

fun eraseTypes ::
  "int \<Rightarrow> label_type list \<Rightarrow> (label_type \<times> int list) list \<times> bool \<Rightarrow>
     (label_type \<times> int list) list \<times> bool" where
  "eraseTypes clickedIndex [] (li, removed) = (li, removed)"
| "eraseTypes clickedIndex (labelType # rest) (li, removed) =
     (case map_of li labelType of
        None \<Rightarrow> eraseTypes clickedIndex rest (li, removed)
      | Some labelArray \<Rightarrow>
          (if labelArray = [] then eraseTypes clickedIndex rest (li, removed)
           else
             (case eraseLoop clickedIndex (length labelArray) (labelArray, removed) of
                (arr, removed') \<Rightarrow>
                  eraseTypes clickedIndex rest (AList.update labelType arr li, removed'))))"

text \<open>
  \<open>eraseAtPositionNoUpdate\<close> from the lookup of the segment on, for a pointer that maps to
  the sample index \<open>clickedIndex\<close>: nothing happens without a record for the segment;
  otherwise the arrays of the four types are swept and \<open>eraserModified\<close> is raised when a
  point went.
\<close>

definition eraseAtIndex :: "int \<Rightarrow> app_state \<Rightarrow> app_state" where
  "eraseAtIndex clickedIndex s =
     (case map_of (labels s) (currentSegment s) of
        None \<Rightarrow> s
      | Some seg \<Rightarrow>
          (case eraseTypes clickedIndex labelTypes (label_indexes seg, False) of
             (li, anyRemoved) \<Rightarrow>
               (setCurrentLabels (seg\<lparr>label_indexes := li\<rparr>) s)
                 \<lparr>eraserModified := (anyRemoved \<or> eraserModified s)\<rparr>))"


section \<open>Pointer geometry\<close>

text \<open>
  JavaScript numbers with their special values. Finite values are kept exact (no rounding
  and no overflow), zero is the positive zero, and the special values follow the IEEE
  rules that the guards of the handlers depend on.
\<close>

datatype jsnum = NaN | PInf | NInf | Fin rat

fun js_neg :: "jsnum \<Rightarrow> jsnum" where
  "js_neg NaN = NaN"
| "js_neg PInf = NInf"
| "js_neg NInf = PInf"
| "js_neg (Fin a) = Fin (- a)"

fun js_add :: "jsnum \<Rightarrow> jsnum \<Rightarrow> jsnum" where
  "js_add (Fin a) (Fin b) = Fin (a + b)"
| "js_add (Fin a) y = y"
| "js_add x (Fin b) = x"
| "js_add PInf PInf = PInf"
| "js_add NInf NInf = NInf"
| "js_add x y = NaN"

fun js_mul :: "jsnum \<Rightarrow> jsnum \<Rightarrow> jsnum" where
  "js_mul (Fin a) (Fin b) = Fin (a * b)"
| "js_mul NaN y = NaN"
| "js_mul x NaN = NaN"
| "js_mul (Fin a) y = (if a = 0 then NaN else if 0 < a then y else js_neg y)"
| "js_mul x (Fin b) = (if b = 0 then NaN else if 0 < b then x else js_neg x)"
| "js_mul PInf y = y"
| "js_mul NInf y = js_neg y"

fun js_div :: "jsnum \<Rightarrow> jsnum \<Rightarrow> jsnum" where
  "js_div (Fin a) (Fin b) =
     (if b = 0 then (if a = 0 then NaN else if 0 < a then PInf else NInf) else Fin (a / b))"
| "js_div NaN y = NaN"
| "js_div x NaN = NaN"
| "js_div (Fin a) y = Fin 0"
| "js_div x (Fin b) = (if 0 \<le> b then x else js_neg x)"
| "js_div x y = NaN"

fun isNaN :: "jsnum \<Rightarrow> bool" where
  "isNaN NaN = True"
| "isNaN x = False"

text \<open>
  What the handlers read from the event and from the plot: whether the target is on the
  mode bar, the shift key, \<open>clientX\<close>; the left edge of the bounding box and, when the
  layout has one, the x axis with \<open>_offset\<close>, \<open>_length\<close> and the two ends of \<open>range\<close>.
\<close>

record mouse_event =
  onModebar :: bool
  shiftKey :: bool
  clientX :: rat

record xaxis =
  axis_offset :: rat
  axis_length :: rat
  range0 :: rat
  range1 :: rat

record graph =
  bbox_left :: rat
  fullLayout_xaxis :: "xaxis option"

text \<open>
  \<open>xaxis.range[0] + (xPixelInPlotArea / xaxis._length) * (xaxis.range[1] - xaxis.range[0])\<close>
  with \<open>xPixelInPlotArea = event.clientX - bbox.left - xaxis._offset\<close>.
\<close>

definition clickedTime :: "mouse_event \<Rightarrow> rat \<Rightarrow> xaxis \<Rightarrow> jsnum" where
  "clickedTime ev left ax =
     js_add (Fin (range0 ax))
       (js_mul (js_div (Fin (clientX ev - left - axis_offset ax)) (Fin (axis_length ax)))
               (Fin (range1 ax - range0 ax)))"

text \<open>
  \<open>Math.round(clickedTime * samplingRate)\<close>: an integer when the product is finite, and
  the product itself when it is infinite or NaN.
\<close>

datatype sample_index = Index int | NotFinite jsnum

definition clickedIndex :: "jsnum \<Rightarrow> app_state \<Rightarrow> sample_index" where
  "clickedIndex t s =
     (case js_mul t (Fin (samplingRate s)) of
        Fin a \<Rightarrow> Index (Math_round a)
      | v \<Rightarrow> NotFinite v)"


section \<open>Eraser handlers\<close>

text \<open>
  \<open>eraseAtPositionNoUpdate\<close> has no \<open>return\<close> with a value: every call yields
  \<open>undefined\<close>. With an infinite or NaN index no comparison \<open>distance <= ERASER_TOLERANCE\<close>
  holds, so nothing is spliced.
\<close>

datatype js_value = Undefined | Number int

definition eraseAtPositionNoUpdate ::
  "mouse_event \<Rightarrow> graph \<Rightarrow> app_state \<Rightarrow> js_value \<times> app_state" where
  "eraseAtPositionNoUpdate ev g s =
     (if \<not> fileData s then (Undefined, s)
      else case fullLayout_xaxis g of
        None \<Rightarrow> (Undefined, s)
      | Some ax \<Rightarrow>
          (if isNaN (clickedTime ev (bbox_left g) ax) then (Undefined, s)
           else case clickedIndex (clickedTime ev (bbox_left g) ax) s of
             Index i \<Rightarrow> (Undefined, eraseAtIndex i s)
           | NotFinite v \<Rightarrow> (Undefined, s)))"

text \<open>
  The handlers of the drag. They are registered on the graph for \<open>mousedown\<close>, \<open>mousemove\<close>,
  \<open>mouseup\<close> and \<open>mouseleave\<close> in the capture phase, for every mouse button: none of them
  looks at \<open>event.button\<close>. \<open>handleEraserMouseUp\<close> writes \<open>labeled\<close> through
  \<open>state.labels[segmentId]\<close> without a check, which throws when the record is absent, and
  ends with \<open>updateDisplay(); markLabelsDirty();\<close>.
\<close>

definition handleEraserMouseUp :: "app_state \<Rightarrow> ended \<times> app_state" where
  "handleEraserMouseUp s =
     (if eraserActive s then
        (if eraserModified s then
           (case map_of (labels s) (currentSegment s) of
              None \<Rightarrow> (Throws, s\<lparr>eraserActive := False\<rparr>)
            | Some seg \<Rightarrow>
                updateDisplay_markLabelsDirty
                  (setCurrentLabels (seg\<lparr>labeled := True\<rparr>) (s\<lparr>eraserActive := False\<rparr>)))
         else (Returns, s\<lparr>eraserActive := False\<rparr>))
      else (Returns, s))"

definition handleEraserMouseDown :: "mouse_event \<Rightarrow> graph \<Rightarrow> app_state \<Rightarrow> app_state" where
  "handleEraserMouseDown ev g s =
     (if \<not> shiftKey ev then s
      else if onModebar ev then s
      else snd (eraseAtPositionNoUpdate ev g (s\<lparr>eraserActive := True, eraserModified := False\<rparr>)))"

definition handleEraserMouseMove ::
  "mouse_event \<Rightarrow> graph \<Rightarrow> app_state \<Rightarrow> ended \<times> app_state" where
  "handleEraserMouseMove ev g s =
     (if \<not> eraserActive s then (Returns, s)
      else if \<not> shiftKey ev then handleEraserMouseUp s
      else (Returns, snd (eraseAtPositionNoUpdate ev g s)))"

text \<open>\<open>handleEraserKeyUp\<close> for the Shift key.\<close>

definition handleEraserKeyUp :: "app_state \<Rightarrow> app_state" where
  "handleEraserKeyUp s = s\<lparr>eraserActive := False\<rparr>"



section \<open>The whole click handler\<close>

text \<open>
  The region branch of \<open>handleDirectClick\<close>: the first click stores the start, the second
  stores the end, swaps the two when out of order, appends the region to the segment
  (created with \<open>labeled: true\<close> when absent) and clears both ends.
\<close>

definition regionClick :: "int \<Rightarrow> app_state \<Rightarrow> app_state" where
  "regionClick idx s =
     (case regionStart s of
        None \<Rightarrow> s\<lparr>regionStart := Some idx\<rparr>
      | Some start \<Rightarrow>
          (let seg = currentLabels True s;
               region = (if start > idx then (idx, start) else (start, idx))
           in markLabelsDirty
                ((setCurrentLabels
                    (seg\<lparr>highlighted_regions := highlighted_regions seg @ [region]\<rparr>) s)
                 \<lparr>regionStart := None, regionEnd := None\<rparr>)))"

text \<open>
  The handler returns with a state, or is ended by a \<open>TypeError\<close> and leaves a state, or
  goes on to store a \<open>clickedIndex\<close> that is not a finite number; the integer arrays of this
  development have no place for such a value, so that outcome is reported as it is. In the
  region branch the x axis is read without a check, and a missing axis throws.
\<close>

datatype click_result = Returned app_state | Threw app_state | NonFiniteIndex jsnum

definition handleDirectClick :: "mouse_event \<Rightarrow> graph \<Rightarrow> app_state \<Rightarrow> click_result" where
  "handleDirectClick ev g s =
     (if onModebar ev then Returned s
      else if shiftKey ev then Returned s
      else if regionSelectionMode s then
        (case fullLayout_xaxis g of
           None \<Rightarrow> Threw s
         | Some ax \<Rightarrow>
             (case clickedIndex (clickedTime ev (bbox_left g) ax) s of
                Index i \<Rightarrow> Returned (regionClick i s)
              | NotFinite v \<Rightarrow> NonFiniteIndex v))
      else
        (case fullLayout_xaxis g of
           None \<Rightarrow> Returned s
         | Some ax \<Rightarrow>
             (if isNaN (clickedTime ev (bbox_left g) ax) then Returned s
              else
                (case clickedIndex (clickedTime ev (bbox_left g) ax) s of
                   Index i \<Rightarrow>
                     (case handleDirectClick_index i s of
                        (Returns, s') \<Rightarrow> Returned s'
                      | (Throws, s') \<Rightarrow> Threw s')
                 | NotFinite v \<Rightarrow> NonFiniteIndex v))))"

text \<open>
  A run of clicks on the graph, each after choosing a label type. The page goes on after a
  handler that threw; a click that stores an index which is not finite takes the run out
  of this development, and the run is reported as that click.
\<close>

fun clickSequence ::
  "(label_type \<times> mouse_event \<times> graph) list \<Rightarrow> app_state \<Rightarrow> click_result" where
  "clickSequence [] s = Returned s"
| "clickSequence ((labelType, ev, g) # ops) s =
     (case handleDirectClick ev g (selectLabelType labelType s) of
        Returned s' \<Rightarrow> clickSequence ops s'
      | Threw s' \<Rightarrow> clickSequence ops s'
      | NonFiniteIndex v \<Rightarrow> NonFiniteIndex v)"


section \<open>Review and done markers (renderer.js, toggleReview .. toggleDone)\<close>

text \<open>\<open>String.prototype.toLowerCase\<close> on the ASCII letters, \<open>endsWith\<close> and \<open>slice(0, -n)\<close>.\<close>

definition toLowerChar :: "char \<Rightarrow> char" where
  "toLowerChar c =
     (let n = (of_char c :: nat) in if 65 \<le> n \<and> n \<le> 90 then char_of (n + 32) else c)"

definition toLowerCase :: "string \<Rightarrow> string" where
  "toLowerCase str = map toLowerChar str"

definition endsWith :: "string \<Rightarrow> string \<Rightarrow> bool" where
  "endsWith str suffix \<longleftrightarrow>
     length suffix \<le> length str \<and> drop (length str - length suffix) str = suffix"

definition stripExtension :: "string \<Rightarrow> string" where
  "stripExtension filename =
     (if endsWith (toLowerCase filename) ''.h5'' then take (length filename - 3) filename
      else if endsWith (toLowerCase filename) ''.hdf5'' then take (length filename - 5) filename
      else filename)"

text \<open>
  The loops over \<open>state.labels\<close> that look for \<open>review === true\<close>. The reserved
  \<open>_metadata\<close> key carries no \<open>review\<close> field and is not among the segment keys here.
\<close>

definition reviewAt :: "(nat \<times> segment) list \<Rightarrow> nat \<Rightarrow> bool" where
  "reviewAt ls k = (case map_of ls k of Some seg \<Rightarrow> review seg | None \<Rightarrow> False)"

definition hasReview :: "(nat \<times> segment) list \<Rightarrow> bool" where
  "hasReview ls = list_ex (reviewAt ls) (map fst ls)"

definition getSegmentsWithReview :: "app_state \<Rightarrow> nat list" where
  "getSegmentsWithReview s =
     sort (map Suc (filter (reviewAt (labels s)) (remdups (map fst (labels s)))))"

definition updateReviewFilesState :: "string \<Rightarrow> app_state \<Rightarrow> app_state" where
  "updateReviewFilesState file s =
     (let fileBaseName = stripExtension file in
      if hasReview (labels s) \<and> fileBaseName \<notin> set (reviewFiles s) then
        s\<lparr>reviewFiles := reviewFiles s @ [fileBaseName]\<rparr>
      else if \<not> hasReview (labels s) \<and> fileBaseName \<in> set (reviewFiles s) then
        s\<lparr>reviewFiles := remove1 fileBaseName (reviewFiles s)\<rparr>
      else s)"

text \<open>
  \<open>toggleReview\<close>. Without a current file \<open>updateReviewFilesState\<close> calls
  \<open>stripExtension(null)\<close>, which throws after the flag has been flipped.
\<close>

definition toggleReview :: "app_state \<Rightarrow> ended \<times> app_state" where
  "toggleReview s =
     (let isDone = (case currentFile s of Some f \<Rightarrow> f \<in> set (doneFiles s) | None \<Rightarrow> False);
          currentReviewState = reviewAt (labels s) (currentSegment s)
      in if isDone \<and> \<not> currentReviewState then (Returns, s)
         else
           (let seg = currentLabels False s;
                s1 = setCurrentLabels (seg\<lparr>review := \<not> review seg\<rparr>) s
            in case currentFile s of
                 None \<Rightarrow> (Throws, s1)
               | Some f \<Rightarrow> (Returns, markLabelsDirty (updateReviewFilesState f s1))))"

text \<open>
  \<open>toggleDone\<close> is an \<open>async\<close> function in two parts. Up to its \<open>await\<close> it checks that a
  file is open and, when the file is not yet done, that no segment is flagged for review;
  if so it calls the done-list interface \<open>toggleDoneFile\<close> with the name of the current
  file. \<open>toggleDone_request\<close> is that part: its value is the file name passed to the
  interface, or \<open>None\<close> when the function returns without calling it. The state is not
  written. Other handlers can run before the reply arrives.
\<close>

definition toggleDone_request :: "app_state \<Rightarrow> string option" where
  "toggleDone_request s =
     (case currentFile s of
        None \<Rightarrow> None
      | Some f \<Rightarrow>
          (if f \<notin> set (doneFiles s) \<and> length (getSegmentsWithReview s) > 0 then None
           else Some f))"

text \<open>
  The part after the \<open>await\<close>, run when the reply (\<open>success\<close>, \<open>done_files\<close>) has arrived:
  the done list of the reply is stored, whatever the state has become in the meantime.
\<close>

definition toggleDone_reply :: "bool \<times> string list \<Rightarrow> app_state \<Rightarrow> app_state" where
  "toggleDone_reply result s = (if fst result then s\<lparr>doneFiles := snd result\<rparr> else s)"

text \<open>A done toggle whose reply arrives before any other handler runs.\<close>

definition toggleDone :: "bool \<times> string list \<Rightarrow> app_state \<Rightarrow> app_state" where
  "toggleDone result s =
     (case toggleDone_request s of
        None \<Rightarrow> s
      | Some f \<Rightarrow> toggleDone_reply result s)"

text \<open>
  The part of \<open>loadFilesFromFolder\<close> that fills the two lists from the replies of the
  done-list and review-list interfaces, when the file listing succeeded.
\<close>

definition loadFilesFromFolder ::
  "bool \<Rightarrow> bool \<times> string list \<Rightarrow> bool \<times> string list \<Rightarrow> app_state \<Rightarrow> app_state" where
  "loadFilesFromFolder filesOk doneResult reviewResult s =
     (if filesOk then
        s\<lparr>doneFiles := (if fst doneResult then snd doneResult else []),
          reviewFiles := (if fst reviewResult then snd reviewResult else [])\<rparr>
      else s)"

text \<open>
  \<open>navigateSegment\<close>, with the flush it awaits taken as one step; the \<open>updateDisplay\<close> that
  ends it comes after the last write to the state.
\<close>

definition navigateSegment :: "int \<Rightarrow> bool \<Rightarrow> app_state \<Rightarrow> app_state" where
  "navigateSegment direction ok s =
     (let newSegment = int (currentSegment s) + direction in
      if newSegment \<ge> 0 \<and> newSegment < int (segmentCount s) then
        (saveIfDirty ok s)\<lparr>currentSegment := nat newSegment\<rparr>
      else s)"

text \<open>A file is in both sets when its name is in the done list and its base name in the review list.\<close>

definition inDoneAndReview :: "string \<Rightarrow> app_state \<Rightarrow> bool" where
  "inDoneAndReview file s \<longleftrightarrow>
     file \<in> set (doneFiles s) \<and> stripExtension file \<in> set (reviewFiles s)"

text \<open>
  The events on the review and done markers. \<open>DoneRequest\<close> is a press of the done button
  and \<open>DoneReply\<close> the arrival of the reply to a call of the done-list interface that is
  still unanswered; \<open>ToggleDone\<close> is a press whose reply arrives before the next
  event. A run carries the state and the number of calls that await their reply.
\<close>

datatype marker_event =
    ToggleReview
  | ToggleDone bool "string list"
  | DoneRequest
  | DoneReply bool "string list"
  | NavigateSegment int bool

fun markerStep :: "marker_event \<Rightarrow> nat \<times> app_state \<Rightarrow> nat \<times> app_state" where
  "markerStep ToggleReview (pending, s) = (pending, snd (toggleReview s))"
| "markerStep (ToggleDone ok files) (pending, s) = (pending, toggleDone (ok, files) s)"
| "markerStep DoneRequest (pending, s) =
     (case toggleDone_request s of None \<Rightarrow> (pending, s) | Some f \<Rightarrow> (Suc pending, s))"
| "markerStep (DoneReply ok files) (pending, s) =
     (case pending of 0 \<Rightarrow> (pending, s) | Suc n \<Rightarrow> (n, toggleDone_reply (ok, files) s))"
| "markerStep (NavigateSegment direction ok) (pending, s) =
     (pending, navigateSegment direction ok s)"

fun markerRun :: "marker_event list \<Rightarrow> nat \<times> app_state \<Rightarrow> nat \<times> app_state" where
  "markerRun [] c = c"
| "markerRun (e # es) c = markerRun es (markerStep e c)"

text \<open>
  The runs in which no reply is ever awaited while another handler runs: they have no
  \<open>DoneRequest\<close> and no \<open>DoneReply\<close>.
\<close>

fun uninterrupted :: "marker_event \<Rightarrow> bool" where
  "uninterrupted DoneRequest = False"
| "uninterrupted (DoneReply ok files) = False"
| "uninterrupted e = True"

text \<open>
  A session is consistent when a done current file has no segment under review, the review
  list names the current file only if some segment is under review, and the review list
  has no repetition.
\<close>

definition consistent :: "app_state \<Rightarrow> bool" where
  "consistent s \<longleftrightarrow>
     distinct (reviewFiles s) \<and>
     (case currentFile s of
        None \<Rightarrow> True
      | Some f \<Rightarrow>
          (f \<in> set (doneFiles s) \<longrightarrow> \<not> hasReview (labels s)) \<and>
          (stripExtension f \<in> set (reviewFiles s) \<longrightarrow> hasReview (labels s)))"


section \<open>The bridge to the Python process (python-bridge.js)\<close>

text \<open>
  \<open>pendingCalls\<close> maps a call id to the \<open>resolve\<close> and \<open>reject\<close> of that call's promise;
  the pair is determined by the id, so the keys are kept. \<open>settled\<close> lists every
  invocation of a \<open>resolve\<close> or \<open>reject\<close> of a call that was sent, \<open>sent\<close> the messages
  written to the process, \<open>timeouts\<close> the armed timeouts (due time and call id) and \<open>now\<close>
  the millisecond clock.
\<close>

datatype rpc_error = NotStarted | CallTimeout | Remote string

datatype settlement = Resolved string | Rejected rpc_error

record message =
  msg_id :: "nat option"
  msg_error :: "string option"
  msg_result :: string

record bridge =
  pythonProcess :: bool
  messageId :: nat
  pendingCalls :: "nat set"
  sent :: "(nat \<times> string \<times> string) list"
  timeouts :: "(nat \<times> nat) list"
  now :: nat
  settled :: "(nat \<times> settlement) list"

definition newBridge :: bridge where
  "newBridge =
     \<lparr>pythonProcess = False, messageId = 0, pendingCalls = {}, sent = [], timeouts = [],
      now = 0, settled = []\<rparr>"

text \<open>
  \<open>call\<close>: rejected at once when the process is not there; otherwise the next id is
  taken, the pair stored, the message written and a timeout of 30000 ms armed. The result
  is the immediate rejection or the id under which the promise is pending.
\<close>

definition call :: "string \<Rightarrow> string \<Rightarrow> bridge \<Rightarrow> (rpc_error + nat) \<times> bridge" where
  "call method params b =
     (if \<not> pythonProcess b then (Inl NotStarted, b)
      else
        (Inr (messageId b),
         b\<lparr>messageId := Suc (messageId b),
           pendingCalls := insert (messageId b) (pendingCalls b),
           sent := sent b @ [(messageId b, method, params)],
           timeouts := timeouts b @ [(now b + 30000, messageId b)]\<rparr>))"

definition handleMessage :: "message \<Rightarrow> bridge \<Rightarrow> bridge" where
  "handleMessage m b =
     (case msg_id m of
        None \<Rightarrow> b
      | Some i \<Rightarrow>
          (if i \<in> pendingCalls b then
             b\<lparr>pendingCalls := pendingCalls b - {i},
               settled := settled b @
                 [(i, case msg_error m of
                        None \<Rightarrow> Resolved (msg_result m)
                      | Some e \<Rightarrow> if e = [] then Resolved (msg_result m) else Rejected (Remote e))]\<rparr>
           else b))"

text \<open>The callback of the timeout armed by \<open>call\<close> for the id \<open>i\<close>.\<close>

definition timeoutCallback :: "nat \<Rightarrow> bridge \<Rightarrow> bridge" where
  "timeoutCallback i b =
     (if i \<in> pendingCalls b then
        b\<lparr>pendingCalls := pendingCalls b - {i},
          settled := settled b @ [(i, Rejected CallTimeout)]\<rparr>
      else b)"

fun fireTimeouts :: "nat list \<Rightarrow> bridge \<Rightarrow> bridge" where
  "fireTimeouts [] b = b"
| "fireTimeouts (i # is) b = fireTimeouts is (timeoutCallback i b)"

text \<open>
  \<open>d\<close> milliseconds pass on the bridge: the timeouts that have become due leave the queue
  and their callbacks run in the order they were armed.
\<close>

definition advance :: "nat \<Rightarrow> bridge \<Rightarrow> bridge" where
  "advance d b =
     (let t = now b + d in
      fireTimeouts (map snd (filter (\<lambda>(due, i). due \<le> t) (timeouts b)))
        (b\<lparr>now := t, timeouts := filter (\<lambda>(due, i). \<not> due \<le> t) (timeouts b)\<rparr>))"

text \<open>
  What can happen to a bridge: a call, an inbound message, time passing, the process
  being started, and its \<open>close\<close> event (which follows \<open>stop\<close>).
\<close>

datatype bridge_event =
    Call string string
  | Inbound message
  | Advance nat
  | Start
  | Close

fun bridgeStep :: "bridge_event \<Rightarrow> bridge \<Rightarrow> bridge" where
  "bridgeStep (Call method params) b = snd (call method params b)"
| "bridgeStep (Inbound m) b = handleMessage m b"
| "bridgeStep (Advance d) b = advance d b"
| "bridgeStep Start b = b\<lparr>pythonProcess := True\<rparr>"
| "bridgeStep Close b = b\<lparr>pythonProcess := False\<rparr>"

fun bridgeRun :: "bridge_event list \<Rightarrow> bridge \<Rightarrow> bridge" where
  "bridgeRun [] b = b"
| "bridgeRun (e # es) b = bridgeRun es (bridgeStep e b)"

text \<open>The milliseconds that pass in a run, and whether a run delivers a message for an id.\<close>

fun waited :: "bridge_event list \<Rightarrow> nat" where
  "waited [] = 0"
| "waited (Advance d # es) = d + waited es"
| "waited (e # es) = waited es"

fun answers :: "nat \<Rightarrow> bridge_event \<Rightarrow> bool" where
  "answers i (Inbound m) = (msg_id m = Some i)"
| "answers i e = False"

text \<open>The settlements recorded for one call.\<close>

definition settlementsOf :: "nat \<Rightarrow> bridge \<Rightarrow> settlement list" where
  "settlementsOf i b = map snd (filter (\<lambda>(j, r). j = i) (settled b))"

text \<open>
  The invariant of the bridge: ids in use lie below the counter, and no call that has been
  settled is pending.
\<close>

definition bridgeInv :: "bridge \<Rightarrow> bool" where
  "bridgeInv b \<longleftrightarrow>
     (\<forall>i\<in>pendingCalls b. i < messageId b) \<and>
     (\<forall>(due, i)\<in>set (timeouts b). i < messageId b) \<and>
     (\<forall>(i, r)\<in>set (settled b). i < messageId b \<and> i \<notin> pendingCalls b)"

text \<open>
  How the call \<open>i\<close>, whose timeout is due at \<open>due\<close>, stands: still pending with its timeout
  armed and not yet due and nothing settled, or rejected by the timeout and gone.
\<close>

definition awaiting :: "nat \<Rightarrow> nat \<Rightarrow> bridge \<Rightarrow> bool" where
  "awaiting i due b \<longleftrightarrow>
     i < messageId b \<and>
     (i \<in> pendingCalls b \<and> (due, i) \<in> set (timeouts b) \<and> now b < due \<and>
        settlementsOf i b = [] \<or>
      i \<notin> pendingCalls b \<and> settlementsOf i b = [Rejected CallTimeout])"


section \<open>Editing events\<close>

definition toggleRegionMode :: "app_state \<Rightarrow> app_state" where
  "toggleRegionMode s =
     s\<lparr>regionSelectionMode := \<not> regionSelectionMode s, regionStart := None, regionEnd := None\<rparr>"

text \<open>\<open>label_indexes[labelType]?.length || 0\<close>\<close>

definition labelCount :: "label_type \<Rightarrow> segment \<Rightarrow> nat" where
  "labelCount labelType seg =
     (case map_of (label_indexes seg) labelType of
        None \<Rightarrow> 0
      | Some labelArray \<Rightarrow> length labelArray)"

text \<open>
  \<open>eraseCurrentTypeLabels\<close>; \<open>confirmed\<close> is the answer to the \<open>confirm\<close> dialog. The
  handler ends with \<open>updateGraph(); updateLabelCounts(); markLabelsDirty();\<close>.
\<close>

definition eraseCurrentTypeLabels :: "bool \<Rightarrow> app_state \<Rightarrow> ended \<times> app_state" where
  "eraseCurrentTypeLabels confirmed s =
     (case map_of (labels s) (currentSegment s) of
        None \<Rightarrow> (Returns, s)
      | Some seg \<Rightarrow>
          (if labelCount (currentLabelType s) seg = 0 then (Returns, s)
           else if confirmed then
             (let s1 = setCurrentLabels
                         (seg\<lparr>label_indexes :=
                                AList.update (currentLabelType s) [] (label_indexes seg)\<rparr>) s
              in if updateLabelCounts s1 then (Returns, markLabelsDirty s1) else (Throws, s1))
           else (Returns, s)))"

text \<open>
  \<open>eraseUpslopeLabels\<close>; the label type is the value of the \<open>upslope-label-type\<close> select.
\<close>

definition eraseUpslopeLabels :: "label_type \<Rightarrow> app_state \<Rightarrow> ended \<times> app_state" where
  "eraseUpslopeLabels labelType s =
     (case map_of (labels s) (currentSegment s) of
        None \<Rightarrow> (Returns, s)
      | Some seg \<Rightarrow>
          (if labelCount labelType seg = 0 then (Returns, s)
           else
             updateDisplay_markLabelsDirty
               (setCurrentLabels
                  (seg\<lparr>label_indexes := AList.update labelType [] (label_indexes seg)\<rparr>) s)))"

text \<open>The \<open>input\<close> handlers of the two note fields; \<open>v\<close> is the text typed.\<close>

definition handleReviewNoteChange :: "string \<Rightarrow> app_state \<Rightarrow> app_state" where
  "handleReviewNoteChange v s =
     markLabelsDirty (setCurrentLabels ((currentLabels False s)\<lparr>review_note := v\<rparr>) s)"

definition handleRegionNoteChange :: "string \<Rightarrow> app_state \<Rightarrow> app_state" where
  "handleRegionNoteChange v s =
     markLabelsDirty (setCurrentLabels ((currentLabels False s)\<lparr>region_note := v\<rparr>) s)"

text \<open>
  The editing operations on the labels of the open file, each taken with the state its
  handler leaves, however the handler ended. A click is taken at the sample index it maps
  to and goes to the region branch or to the toggle, as \<open>handleDirectClick\<close> dispatches it;
  \<open>Hover\<close> is the \<open>plotly_hover\<close> callback. The detection actions, which store what the
  engine returns and set \<open>labeled\<close>, are not among them.
\<close>

datatype edit_event =
    Click int
  | RightClick
  | Hover rat
  | EraserDown mouse_event graph
  | EraserMove mouse_event graph
  | EraserUp
  | EraserKeyUp
  | SelectLabelType label_type
  | ToggleRegionMode
  | EraseCurrentType bool
  | EraseUpslope label_type
  | ReviewToggle
  | ReviewNote string
  | RegionNote string
  | Navigate int bool

fun editStep :: "edit_event \<Rightarrow> app_state \<Rightarrow> app_state" where
  "editStep (Click i) s =
     (if regionSelectionMode s then regionClick i s else snd (handleDirectClick_index i s))"
| "editStep RightClick s = snd (handleGraphRightClick s)"
| "editStep (Hover x) s = s\<lparr>lastHoverData := Some x\<rparr>"
| "editStep (EraserDown ev g) s = handleEraserMouseDown ev g s"
| "editStep (EraserMove ev g) s = snd (handleEraserMouseMove ev g s)"
| "editStep EraserUp s = snd (handleEraserMouseUp s)"
| "editStep EraserKeyUp s = handleEraserKeyUp s"
| "editStep (SelectLabelType t) s = selectLabelType t s"
| "editStep ToggleRegionMode s = toggleRegionMode s"
| "editStep (EraseCurrentType confirmed) s = snd (eraseCurrentTypeLabels confirmed s)"
| "editStep (EraseUpslope t) s = snd (eraseUpslopeLabels t s)"
| "editStep ReviewToggle s = snd (toggleReview s)"
| "editStep (ReviewNote v) s = handleReviewNoteChange v s"
| "editStep (RegionNote v) s = handleRegionNoteChange v s"
| "editStep (Navigate direction ok) s = navigateSegment direction ok s"

fun editRun :: "edit_event list \<Rightarrow> app_state \<Rightarrow> app_state" where
  "editRun [] s = s"
| "editRun (e # es) s = editRun es (editStep e s)"

text \<open>The \<open>labeled\<close> flag of the segment \<open>k\<close>, false when there is no record.\<close>

definition labeledAt :: "nat \<Rightarrow> app_state \<Rightarrow> bool" where
  "labeledAt k s = (case map_of (labels s) k of Some seg \<Rightarrow> labeled seg | None \<Rightarrow> False)"


section \<open>Example states\<close>

text \<open>
  A file with three segments is open; the label file had a record for the first segment,
  with two points of the first type and two of the second.
\<close>

definition exampleSegment :: segment where
  "exampleSegment =
     \<lparr>labeled = False, review = False, review_note = [],
      label_indexes =
        [(compression_systolic_points, [10, 16]), (compression_diastolic_points, [13, 40]),
         (spontaneous_systolic_points, []), (spontaneous_diastolic_points, [])],
      highlighted_regions = [], region_note = []\<rparr>"

definition exampleState :: app_state where
  "exampleState =
     initialState\<lparr>currentFile := Some ''rec1.h5'', fileData := True, segmentCount := 3,
                  labels := [(0, exampleSegment)]\<rparr>"

text \<open>The same file opened when there are no labels for it yet.\<close>

definition openedState :: app_state where
  "openedState =
     initialState\<lparr>currentFile := Some ''rec1.h5'', fileData := True, segmentCount := 3\<rparr>"



definition partialSegment :: segment where
  "partialSegment =
     \<lparr>labeled = False, review = False, review_note = [],
      label_indexes = [(compression_systolic_points, [10, 16])],
      highlighted_regions = [], region_note = []\<rparr>"

definition partialState :: app_state where
  "partialState =
     initialState\<lparr>currentFile := Some ''rec1.h5'', fileData := True, segmentCount := 3,
                  labels := [(0, partialSegment)],
                  currentLabelType := compression_diastolic_points\<rparr>"

text \<open>
  The same file with a label file whose record holds the points of the first label type
  in the order 30, 10.
\<close>

definition unsortedSegment :: segment where
  "unsortedSegment =
     \<lparr>labeled = True, review = False, review_note = [],
      label_indexes =
        [(compression_systolic_points, [30, 10]), (compression_diastolic_points, []),
         (spontaneous_systolic_points, []), (spontaneous_diastolic_points, [])],
      highlighted_regions = [], region_note = []\<rparr>"

definition unsortedState :: app_state where
  "unsortedState =
     initialState\<lparr>currentFile := Some ''rec1.h5'', fileData := True, segmentCount := 3,
                  labels := [(0, unsortedSegment)]\<rparr>"

text \<open>
  A plot area 1000 pixels wide that shows the seconds 0 to 8, and a pointer 6 pixels into
  it: at the default rate of 250 samples per second this is the sample index 12.
\<close>

definition exampleGraph :: graph where
  "exampleGraph =
     \<lparr>bbox_left = 0,
      fullLayout_xaxis = Some \<lparr>axis_offset = 0, axis_length = 1000, range0 = 0, range1 = 8\<rparr>\<rparr>"

definition examplePointer :: "bool \<Rightarrow> mouse_event" where
  "examplePointer shift = \<lparr>onModebar = False, shiftKey = shift, clientX = 6\<rparr>"




text \<open>
  The file with a label file whose record has a single point at 12 and the \<open>labeled\<close> flag
  not set.
\<close>

definition singlePointSegment :: segment where
  "singlePointSegment =
     \<lparr>labeled = False, review = False, review_note = [],
      label_indexes =
        [(compression_systolic_points, []), (compression_diastolic_points, []),
         (spontaneous_systolic_points, [12]), (spontaneous_diastolic_points, [])],
      highlighted_regions = [], region_note = []\<rparr>"

definition singlePointState :: app_state where
  "singlePointState =
     initialState\<lparr>currentFile := Some ''rec1.h5'', fileData := True, segmentCount := 3,
                  labels := [(0, singlePointSegment)]\<rparr>"

text \<open>The example file marked done, and the example with its segment flagged for review.\<close>

definition doneState :: app_state where
  "doneState = exampleState\<lparr>doneFiles := [''rec1.h5'']\<rparr>"

definition reviewState :: app_state where
  "reviewState =
     exampleState\<lparr>labels := [(0, exampleSegment\<lparr>review := True\<rparr>)], reviewFiles := [''rec1'']\<rparr>"

text \<open>
  A started bridge, and traffic after a first call: a second call is made, ten seconds
  pass, the reply to the second call arrives, twenty more seconds pass. \<open>lateReply\<close> is a
  reply to the first call.
\<close>

definition startedBridge :: bridge where
  "startedBridge = bridgeStep Start newBridge"

definition exampleTraffic :: "bridge_event list" where
  "exampleTraffic =
     [Call ''find_peaks'' ''{}'', Advance 10000,
      Inbound \<lparr>msg_id = Some 1, msg_error = None, msg_result = ''[3, 7]''\<rparr>,
      Advance 20000]"

definition lateReply :: message where
  "lateReply = \<lparr>msg_id = Some 0, msg_error = None, msg_result = ''ok''\<rparr>"

text \<open>
  The example plot with a width of zero and with a negative width, and a pointer on the
  left edge of the plot area.
\<close>

definition zeroWidthGraph :: graph where
  "zeroWidthGraph =
     \<lparr>bbox_left = 0,
      fullLayout_xaxis = Some \<lparr>axis_offset = 0, axis_length = 0, range0 = 0, range1 = 8\<rparr>\<rparr>"

definition negativeWidthGraph :: graph where
  "negativeWidthGraph =
     \<lparr>bbox_left = 0,
      fullLayout_xaxis = Some \<lparr>axis_offset = 0, axis_length = - 1000, range0 = 0, range1 = 8\<rparr>\<rparr>"

definition edgePointer :: mouse_event where
  "edgePointer = \<lparr>onModebar = False, shiftKey = False, clientX = 0\<rparr>"

section \<open>The Normal-mode toggle\<close>

lemma labelTypes_UNIV: "set labelTypes = UNIV"
proof -
  have "t \<in> set labelTypes" for t
    by (cases t) (simp_all add: labelTypes_def)
  then show ?thesis by blast
qed

lemma findIndex_None_iff: "findIndex P xs = None \<longleftrightarrow> (\<forall>x\<in>set xs. \<not> P x)"
  by (induction xs) auto

lemma findIndex_first:
  "\<forall>q\<in>set ys. \<not> P q \<Longrightarrow> P p \<Longrightarrow> findIndex P (ys @ p # zs) = Some (length ys)"
  by (induction ys) auto

lemma findIndex_Some_split:
  "findIndex P xs = Some i \<Longrightarrow>
     \<exists>ys p zs. xs = ys @ p # zs \<and> length ys = i \<and> P p \<and> (\<forall>q\<in>set ys. \<not> P q)"
proof (induction xs arbitrary: i)
  case Nil
  then show ?case by simp
next
  case (Cons x xs)
  show ?case
  proof (cases "P x")
    case True
    with Cons.prems have "i = 0" by simp
    with True show ?thesis by (intro exI [of _ "[]"] exI [of _ x] exI [of _ xs]) simp
  next
    case False
    with Cons.prems obtain j where j: "findIndex P xs = Some j" "i = Suc j"
      by auto
    from Cons.IH [OF j(1)] obtain ys p zs
      where "xs = ys @ p # zs" "length ys = j" "P p" "\<forall>q\<in>set ys. \<not> P q"
      by blast
    with False j(2) show ?thesis
      by (intro exI [of _ "x # ys"] exI [of _ p] exI [of _ zs]) simp
  qed
qed

lemma splice1_append: "splice1 (length ys) (ys @ p # zs) = ys @ zs"
  by (simp add: splice1_def)

lemma update_same: "map_of al k = Some v \<Longrightarrow> AList.update k v al = al"
  by (induction al) (auto split: if_splits)

lemma noneNear_iff:
  "noneNear tol x li \<longleftrightarrow>
     (\<forall>t labelArray. map_of li t = Some labelArray \<longrightarrow> (\<forall>q\<in>set labelArray. \<not> near tol x q))"
proof -
  have "noneNear tol x li \<longleftrightarrow>
     (\<forall>t\<in>set labelTypes. case map_of li t of
                    None \<Rightarrow> True
                  | Some labelArray \<Rightarrow> \<forall>q\<in>set labelArray. \<not> near tol x q)"
    by (auto simp: noneNear_def list_all_iff split: option.splits)
  also have "\<dots> \<longleftrightarrow>
     (\<forall>t labelArray. map_of li t = Some labelArray \<longrightarrow> (\<forall>q\<in>set labelArray. \<not> near tol x q))"
    unfolding labelTypes_UNIV by (auto split: option.splits)
  finally show ?thesis .
qed

text \<open>The scan over a list of types, each of which has an array.\<close>

lemma removeNearby_NotFound:
  assumes "\<forall>u\<in>set ts. \<exists>labelArray. map_of li u = Some labelArray \<and>
             (\<forall>q\<in>set labelArray. \<not> near TOLERANCE x q)"
  shows "removeNearby x ts li = NotFound"
  using assms
proof (induction ts)
  case Nil
  then show ?case by simp
next
  case (Cons u ts)
  then obtain labelArray where a: "map_of li u = Some labelArray"
    and f: "\<forall>q\<in>set labelArray. \<not> near TOLERANCE x q"
    by auto
  from f have "findIndex (near TOLERANCE x) labelArray = None"
    by (simp add: findIndex_None_iff)
  with a Cons show ?case by simp
qed

lemma removeNearby_first:
  assumes "\<forall>u\<in>set ts1. \<exists>labelArray. map_of li u = Some labelArray \<and>
             (\<forall>q\<in>set labelArray. \<not> near TOLERANCE x q)"
    and "map_of li t = Some (ys @ p # zs)" and "near TOLERANCE x p"
    and "\<forall>q\<in>set ys. \<not> near TOLERANCE x q"
  shows "removeNearby x (ts1 @ t # ts2) li = Removed (AList.update t (ys @ zs) li)"
  using assms
proof (induction ts1)
  case Nil
  then show ?case by (simp add: findIndex_first splice1_append)
next
  case (Cons u ts1)
  then obtain labelArray where a: "map_of li u = Some labelArray"
    and f: "\<forall>q\<in>set labelArray. \<not> near TOLERANCE x q"
    by auto
  from f have "findIndex (near TOLERANCE x) labelArray = None"
    by (simp add: findIndex_None_iff)
  with a Cons show ?case by simp
qed


text \<open>What the scan can yield, whatever the types and the object.\<close>

lemma removeNearby_cases:
  "removeNearby x ts li = NotFound \<and>
     (\<forall>u\<in>set ts. \<exists>labelArray. map_of li u = Some labelArray \<and>
        (\<forall>q\<in>set labelArray. \<not> near TOLERANCE x q)) \<or>
   (\<exists>ts1 t ts2. ts = ts1 @ t # ts2 \<and>
      (\<forall>u\<in>set ts1. \<exists>labelArray. map_of li u = Some labelArray \<and>
         (\<forall>q\<in>set labelArray. \<not> near TOLERANCE x q)) \<and>
      (map_of li t = None \<and> removeNearby x ts li = FindIndexOfUndefined \<or>
       (\<exists>ys p zs. map_of li t = Some (ys @ p # zs) \<and> near TOLERANCE x p \<and>
          (\<forall>q\<in>set ys. \<not> near TOLERANCE x q) \<and>
          removeNearby x ts li = Removed (AList.update t (ys @ zs) li))))"
proof (induction ts)
  case Nil
  then show ?case by simp
next
  case (Cons u ts)
  show ?case
  proof (cases "map_of li u")
    case None
    have "u # ts = [] @ u # ts \<and>
      (\<forall>v\<in>set []. \<exists>labelArray. map_of li v = Some labelArray \<and>
         (\<forall>q\<in>set labelArray. \<not> near TOLERANCE x q)) \<and>
      map_of li u = None \<and> removeNearby x (u # ts) li = FindIndexOfUndefined"
      using None by simp
    then show ?thesis by blast
  next
    case (Some labelArray)
    show ?thesis
    proof (cases "findIndex (near TOLERANCE x) labelArray")
      case (Some i)
      from findIndex_Some_split [OF this] obtain ys p zs
        where sp: "labelArray = ys @ p # zs" "length ys = i" "near TOLERANCE x p"
          "\<forall>q\<in>set ys. \<not> near TOLERANCE x q"
        by blast
      have m: "map_of li u = Some (ys @ p # zs)"
        using \<open>map_of li u = Some labelArray\<close> sp(1) by simp
      have "removeNearby x ([] @ u # ts) li = Removed (AList.update u (ys @ zs) li)"
        by (rule removeNearby_first [OF _ m sp(3) sp(4)]) simp
      then have "u # ts = [] @ u # ts \<and>
        (\<forall>v\<in>set []. \<exists>labelArray. map_of li v = Some labelArray \<and>
           (\<forall>q\<in>set labelArray. \<not> near TOLERANCE x q)) \<and>
        map_of li u = Some (ys @ p # zs) \<and> near TOLERANCE x p \<and>
        (\<forall>q\<in>set ys. \<not> near TOLERANCE x q) \<and>
        removeNearby x (u # ts) li = Removed (AList.update u (ys @ zs) li)"
        using m sp by simp
      then show ?thesis by blast
    next
      case None
      then have far: "\<forall>q\<in>set labelArray. \<not> near TOLERANCE x q"
        by (simp add: findIndex_None_iff)
      have step: "removeNearby x (u # ts) li = removeNearby x ts li"
        using \<open>map_of li u = Some labelArray\<close> None by simp
      have here: "\<exists>labelArray. map_of li u = Some labelArray \<and>
          (\<forall>q\<in>set labelArray. \<not> near TOLERANCE x q)"
        using \<open>map_of li u = Some labelArray\<close> far by blast
      from Cons.IH show ?thesis
      proof (elim disjE conjE exE)
        assume "removeNearby x ts li = NotFound"
          and "\<forall>u\<in>set ts. \<exists>labelArray. map_of li u = Some labelArray \<and>
             (\<forall>q\<in>set labelArray. \<not> near TOLERANCE x q)"
        with step here show ?thesis by simp
      next
        fix ts1 t ts2
        assume ts: "ts = ts1 @ t # ts2"
          and before: "\<forall>u\<in>set ts1. \<exists>labelArray. map_of li u = Some labelArray \<and>
             (\<forall>q\<in>set labelArray. \<not> near TOLERANCE x q)"
          and none: "map_of li t = None" and r: "removeNearby x ts li = FindIndexOfUndefined"
        have "u # ts = (u # ts1) @ t # ts2 \<and>
          (\<forall>v\<in>set (u # ts1). \<exists>labelArray. map_of li v = Some labelArray \<and>
             (\<forall>q\<in>set labelArray. \<not> near TOLERANCE x q)) \<and>
          map_of li t = None \<and> removeNearby x (u # ts) li = FindIndexOfUndefined"
          using ts before none r step here by simp
        then show ?thesis by blast
      next
        fix ts1 t ts2 ys p zs
        assume ts: "ts = ts1 @ t # ts2"
          and before: "\<forall>u\<in>set ts1. \<exists>labelArray. map_of li u = Some labelArray \<and>
             (\<forall>q\<in>set labelArray. \<not> near TOLERANCE x q)"
          and m: "map_of li t = Some (ys @ p # zs)" and n: "near TOLERANCE x p"
          and f: "\<forall>q\<in>set ys. \<not> near TOLERANCE x q"
          and r: "removeNearby x ts li = Removed (AList.update t (ys @ zs) li)"
        have "u # ts = (u # ts1) @ t # ts2 \<and>
          (\<forall>v\<in>set (u # ts1). \<exists>labelArray. map_of li v = Some labelArray \<and>
             (\<forall>q\<in>set labelArray. \<not> near TOLERANCE x q)) \<and>
          map_of li t = Some (ys @ p # zs) \<and> near TOLERANCE x p \<and>
          (\<forall>q\<in>set ys. \<not> near TOLERANCE x q) \<and>
          removeNearby x (u # ts) li = Removed (AList.update t (ys @ zs) li)"
          using ts before m n f r step here by simp
        then show ?thesis by blast
      qed
    qed
  qed
qed

lemma keys_have_arrays:
  "u \<in> set (map fst li) \<Longrightarrow> \<exists>labelArray. map_of li u = Some labelArray"
  using map_of_eq_None_iff [of li u] by (cases "map_of li u") auto

lemma map_of_setCurrentLabels:
  "map_of (labels (setCurrentLabels seg s)) (currentSegment s) = Some seg"
  by (simp add: setCurrentLabels_def update_conv')

lemma currentLabels_setCurrentLabels: "currentLabels l (setCurrentLabels seg s) = seg"
  by (simp add: currentLabels_def setCurrentLabels_def update_conv')

lemma setCurrentLabels_same:
  "map_of (labels s) (currentSegment s) = Some seg \<Longrightarrow> setCurrentLabels seg s = s"
  by (simp add: setCurrentLabels_def update_same)

lemma labels_markLabelsDirty: "labels (markLabelsDirty s) = labels s"
  by (simp add: markLabelsDirty_def scheduleAutoSave_def Let_def)

lemma currentSegment_markLabelsDirty: "currentSegment (markLabelsDirty s) = currentSegment s"
  by (simp add: markLabelsDirty_def scheduleAutoSave_def Let_def)

lemma labelsDirty_markLabelsDirty: "labelsDirty (markLabelsDirty s)"
  by (simp add: markLabelsDirty_def scheduleAutoSave_def Let_def)

lemma updateLabelCounts_setCurrentLabels:
  "updateLabelCounts (setCurrentLabels seg s) \<longleftrightarrow> (\<forall>t. map_of (label_indexes seg) t \<noteq> None)"
  using labelTypes_UNIV
  by (simp add: updateLabelCounts_def currentLabels_setCurrentLabels list_all_iff)

text \<open>The tail of the handlers, on a state in which the record \<open>seg\<close> has just been stored.\<close>

lemma updateDisplay_markLabelsDirty_stored:
  "map_of (labels (snd (updateDisplay_markLabelsDirty (setCurrentLabels seg s))))
      (currentSegment s) = Some seg \<and>
   (fst (updateDisplay_markLabelsDirty (setCurrentLabels seg s)) = Returns \<longleftrightarrow>
      (\<forall>t. map_of (label_indexes seg) t \<noteq> None)) \<and>
   (fst (updateDisplay_markLabelsDirty (setCurrentLabels seg s)) = Returns \<longrightarrow>
      labelsDirty (snd (updateDisplay_markLabelsDirty (setCurrentLabels seg s)))) \<and>
   (fst (updateDisplay_markLabelsDirty (setCurrentLabels seg s)) = Throws \<longrightarrow>
      snd (updateDisplay_markLabelsDirty (setCurrentLabels seg s)) = setCurrentLabels seg s)"
  by (simp add: updateDisplay_markLabelsDirty_def updateDisplay_def
      updateLabelCounts_setCurrentLabels labels_markLabelsDirty map_of_setCurrentLabels
      labelsDirty_markLabelsDirty)

text \<open>The three outcomes of the toggle on a record.\<close>

lemma toggleSegment_remove:
  assumes "map fst (label_indexes seg) = ks1 @ t # ks2"
    and "\<forall>u\<in>set ks1. \<forall>labelArray. map_of (label_indexes seg) u = Some labelArray \<longrightarrow>
           (\<forall>q\<in>set labelArray. \<not> near TOLERANCE x q)"
    and "map_of (label_indexes seg) t = Some (ys @ p # zs)" and "near TOLERANCE x p"
    and "\<forall>q\<in>set ys. \<not> near TOLERANCE x q"
  shows "toggleSegment x T seg =
     FoundAndRemoved (seg\<lparr>labeled := True,
                          label_indexes := AList.update t (ys @ zs) (label_indexes seg)\<rparr>)"
proof -
  have before: "\<forall>u\<in>set ks1. \<exists>labelArray. map_of (label_indexes seg) u = Some labelArray \<and>
             (\<forall>q\<in>set labelArray. \<not> near TOLERANCE x q)"
  proof
    fix u assume u: "u \<in> set ks1"
    with assms(1) have "u \<in> set (map fst (label_indexes seg))" by simp
    from keys_have_arrays [OF this] obtain labelArray
      where "map_of (label_indexes seg) u = Some labelArray" ..
    with assms(2) u show "\<exists>labelArray. map_of (label_indexes seg) u = Some labelArray \<and>
             (\<forall>q\<in>set labelArray. \<not> near TOLERANCE x q)"
      by blast
  qed
  have "removeNearby x (ks1 @ t # ks2) (label_indexes seg) =
      Removed (AList.update t (ys @ zs) (label_indexes seg))"
    using before assms(3-5) by (rule removeNearby_first)
  with assms(1) show ?thesis by (simp add: toggleSegment_def)
qed

lemma toggleSegment_scan_NotFound:
  assumes "noneNear TOLERANCE x (label_indexes seg)"
  shows "removeNearby x (map fst (label_indexes seg)) (label_indexes seg) = NotFound"
proof (rule removeNearby_NotFound, rule ballI)
  fix u assume "u \<in> set (map fst (label_indexes seg))"
  from keys_have_arrays [OF this] obtain labelArray
    where "map_of (label_indexes seg) u = Some labelArray" ..
  with assms show "\<exists>labelArray. map_of (label_indexes seg) u = Some labelArray \<and>
             (\<forall>q\<in>set labelArray. \<not> near TOLERANCE x q)"
    by (auto simp: noneNear_iff)
qed

lemma toggleSegment_add:
  assumes "noneNear TOLERANCE x (label_indexes seg)"
    and "map_of (label_indexes seg) T = Some labelArray"
  shows "toggleSegment x T seg =
     Added (seg\<lparr>labeled := True,
                label_indexes :=
                  AList.update T (sort (labelArray @ [x])) (label_indexes seg)\<rparr>)"
  using toggleSegment_scan_NotFound [OF assms(1)] assms(2)
  by (simp add: toggleSegment_def)

lemma toggleSegment_throw:
  assumes "noneNear TOLERANCE x (label_indexes seg)"
    and "map_of (label_indexes seg) T = None"
  shows "toggleSegment x T seg = PushOfUndefined"
  using toggleSegment_scan_NotFound [OF assms(1)] assms(2)
  by (simp add: toggleSegment_def)




lemma handleDirectClick_index_throw:
  assumes "toggleSegment x (currentLabelType s) (currentLabels False s) = PushOfUndefined"
    and "map_of (labels s) (currentSegment s) = Some (currentLabels False s)"
  shows "handleDirectClick_index x s = (Throws, s)"
  using assms by (simp add: handleDirectClick_index_def setCurrentLabels_same)

lemma handleDirectClick_index_stored:
  assumes "toggleSegment x (currentLabelType s) (currentLabels False s) = FoundAndRemoved seg' \<or>
           toggleSegment x (currentLabelType s) (currentLabels False s) = Added seg'"
  shows "handleDirectClick_index x s = updateDisplay_markLabelsDirty (setCurrentLabels seg' s)"
  using assms by (auto simp: handleDirectClick_index_def)

lemma toggleSegment_labeled:
  "toggleSegment x T seg = FoundAndRemoved seg' \<or> toggleSegment x T seg = Added seg' \<Longrightarrow>
   labeled seg'"
  by (auto simp: toggleSegment_def split: scan_result.splits option.splits)



lemma exampleState_current:
  "currentLabels l exampleState = exampleSegment" "currentSegment exampleState = 0"
  "currentLabelType exampleState = compression_systolic_points"
  by (simp_all add: exampleState_def initialState_def currentLabels_def)

lemma exampleSegment_far: "noneNear TOLERANCE 100 (label_indexes exampleSegment)"
  by (simp add: noneNear_def labelTypes_def exampleSegment_def near_def TOLERANCE_def)

lemma partialState_current:
  "currentLabels l partialState = partialSegment" "currentSegment partialState = 0"
  "currentLabelType partialState = compression_diastolic_points"
  by (simp_all add: partialState_def initialState_def currentLabels_def)

lemma partialSegment_far: "noneNear TOLERANCE 100 (label_indexes partialSegment)"
  by (simp add: noneNear_def labelTypes_def partialSegment_def near_def TOLERANCE_def)


lemma exampleState_loaded:
  "exampleState = loadFile ''rec1.h5'' None 3 (True, [(0, exampleSegment)]) True initialState"
  by (simp add: exampleState_def loadFile_def saveIfDirty_def initialState_def)

lemma Math_round_of_int: "Math_round (of_int n) = n"
  unfolding Math_round_def by linarith

lemma Math_round_numeral: "Math_round (numeral k) = numeral k"
  using Math_round_of_int [of "numeral k"] by simp

lemma Math_round_neg_numeral: "Math_round (- numeral k) = - numeral k"
  using Math_round_of_int [of "- numeral k"] by simp

lemma examplePointer_index:
  "sampling_rate s = None \<Longrightarrow>
   clickedIndex (clickedTime (examplePointer shift) 0
      \<lparr>axis_offset = 0, axis_length = 1000, range0 = 0, range1 = 8\<rparr>) s = Index 12"
  by (simp add: clickedIndex_def clickedTime_def examplePointer_def samplingRate_def
      Math_round_numeral)





section \<open>Two clicks at the same place\<close>

lemma sort_snoc_remove:
  assumes "sort (xs @ [x]) = ys @ x # zs"
  shows "ys @ zs = sort (xs :: int list)"
proof -
  have "mset (ys @ x # zs) = mset xs + {#x#}"
    using assms [symmetric] by simp
  then have m: "mset (ys @ zs) = mset xs" by simp
  have "sorted (ys @ x # zs)"
    using assms [symmetric] by simp
  then have "sorted (ys @ zs)" by (auto simp: sorted_append)
  with m show ?thesis using properties_for_sort [of "ys @ zs" xs] by simp
qed

lemma near_self: "near TOLERANCE x x"
  by (simp add: near_def TOLERANCE_def)

lemma toggleSegment_twice:
  assumes far: "noneNear TOLERANCE x (label_indexes seg)"
    and key: "map_of (label_indexes seg) T = Some labelArray"
  shows "toggleSegment x T
           (seg\<lparr>labeled := True,
                label_indexes :=
                  AList.update T (sort (labelArray @ [x])) (label_indexes seg)\<rparr>) =
     FoundAndRemoved
       (seg\<lparr>labeled := True,
            label_indexes := AList.update T (sort labelArray) (label_indexes seg)\<rparr>)"
proof -
  let ?li = "label_indexes seg"
  let ?li1 = "AList.update T (sort (labelArray @ [x])) ?li"
  let ?seg1 = "seg\<lparr>labeled := True, label_indexes := ?li1\<rparr>"
  from key have "T \<in> set (map fst ?li)"
    using map_of_eq_None_iff [of ?li T] by force
  from split_list_first [OF this]
  obtain ks1 ks2 where ks: "map fst ?li = ks1 @ T # ks2" "T \<notin> set ks1"
    by blast
  have keys1: "map fst (label_indexes ?seg1) = ks1 @ T # ks2"
    using ks(1) \<open>T \<in> set (map fst ?li)\<close> by (simp add: update_keys)
  have "x \<in> set (sort (labelArray @ [x]))" by simp
  from split_list_first [OF this]
  obtain ys zs where sp: "sort (labelArray @ [x]) = ys @ x # zs" "x \<notin> set ys"
    by blast
  have ysub: "set ys \<subseteq> set labelArray"
  proof
    fix q assume q: "q \<in> set ys"
    then have "q \<in> set (sort (labelArray @ [x]))" using sp(1) by simp
    moreover from q sp(2) have "q \<noteq> x" by blast
    ultimately show "q \<in> set labelArray" by simp
  qed
  have a: "\<forall>u\<in>set ks1. \<forall>arr. map_of (label_indexes ?seg1) u = Some arr \<longrightarrow>
           (\<forall>q\<in>set arr. \<not> near TOLERANCE x q)"
    using far ks(2) by (auto simp: noneNear_iff update_conv')
  have b: "map_of (label_indexes ?seg1) T = Some (ys @ x # zs)"
    using sp(1) by (simp add: update_conv')
  have c: "\<forall>q\<in>set ys. \<not> near TOLERANCE x q"
    using far key ysub by (auto simp: noneNear_iff)
  have "toggleSegment x T ?seg1 =
     FoundAndRemoved
       (?seg1\<lparr>labeled := True,
              label_indexes := AList.update T (ys @ zs) (label_indexes ?seg1)\<rparr>)"
    using keys1 a b near_self c by (rule toggleSegment_remove)
  moreover have "ys @ zs = sort labelArray" using sp(1) by (rule sort_snoc_remove)
  ultimately show ?thesis by simp
qed

lemma currentSegment_updateDisplay_markLabelsDirty:
  "currentSegment (snd (updateDisplay_markLabelsDirty s)) = currentSegment s"
  by (simp add: updateDisplay_markLabelsDirty_def currentSegment_markLabelsDirty)

lemma labels_updateDisplay_markLabelsDirty:
  "labels (snd (updateDisplay_markLabelsDirty s)) = labels s"
  by (simp add: updateDisplay_markLabelsDirty_def labels_markLabelsDirty)

lemma currentLabelType_updateDisplay_markLabelsDirty:
  "currentLabelType (snd (updateDisplay_markLabelsDirty s)) = currentLabelType s"
  by (simp add: updateDisplay_markLabelsDirty_def markLabelsDirty_def scheduleAutoSave_def
      Let_def)

lemma currentLabels_updateDisplay_markLabelsDirty:
  "currentLabels l (snd (updateDisplay_markLabelsDirty s)) = currentLabels l s"
  by (simp add: currentLabels_def currentSegment_updateDisplay_markLabelsDirty
      labels_updateDisplay_markLabelsDirty)

lemma currentSegment_handleDirectClick_index:
  "currentSegment (snd (handleDirectClick_index x s)) = currentSegment s"
  by (simp add: handleDirectClick_index_def currentSegment_updateDisplay_markLabelsDirty
      setCurrentLabels_def split: toggle_result.splits)

lemma currentLabelType_handleDirectClick_index:
  "currentLabelType (snd (handleDirectClick_index x s)) = currentLabelType s"
  by (simp add: handleDirectClick_index_def currentLabelType_updateDisplay_markLabelsDirty
      setCurrentLabels_def split: toggle_result.splits)

lemma currentLabels_handleDirectClick_index:
  assumes "toggleSegment x (currentLabelType s) (currentLabels False s) = FoundAndRemoved seg' \<or>
           toggleSegment x (currentLabelType s) (currentLabels False s) = Added seg'"
  shows "currentLabels l (snd (handleDirectClick_index x s)) = seg'"
  unfolding handleDirectClick_index_stored [OF assms]
  by (simp add: currentLabels_updateDisplay_markLabelsDirty currentLabels_setCurrentLabels)

text \<open>
  C5 (as amended). On a record that has a list for the selected type \<open>T\<close> and holds it in
  ascending order (as the record created when there is none does, and every record after
  a click on such a record), if no existing point of any type lies within \<open>TOLERANCE\<close> of
  \<open>x\<close>, then two consecutive clicks at \<open>x\<close> with \<open>T\<close> selected do this: the first finds
  nothing to remove and adds \<open>x\<close> to the list of \<open>T\<close>; the second finds and removes a
  point; and the stored object of the four lists is then equal to what it was before the
  first click.
\<close>

theorem click_twice_restores:
  assumes "noneNear TOLERANCE x (label_indexes (currentLabels False s))"
    and "map_of (label_indexes (currentLabels False s)) (currentLabelType s) = Some labelArray"
    and "sorted labelArray"
  shows "\<exists>seg1 seg2 arr1.
     toggleSegment x (currentLabelType s) (currentLabels False s) = Added seg1 \<and>
     currentLabels False (snd (handleDirectClick_index x s)) = seg1 \<and>
     map_of (label_indexes seg1) (currentLabelType s) = Some arr1 \<and>
     mset arr1 = mset labelArray + {#x#} \<and>
     currentLabelType (snd (handleDirectClick_index x s)) = currentLabelType s \<and>
     toggleSegment x (currentLabelType s) seg1 = FoundAndRemoved seg2 \<and>
     currentLabels False
       (snd (handleDirectClick_index x (snd (handleDirectClick_index x s)))) = seg2 \<and>
     label_indexes seg2 = label_indexes (currentLabels False s)"
proof -
  let ?seg = "currentLabels False s"
  let ?T = "currentLabelType s"
  let ?s1 = "snd (handleDirectClick_index x s)"
  let ?seg1 = "?seg\<lparr>labeled := True,
      label_indexes := AList.update ?T (sort (labelArray @ [x])) (label_indexes ?seg)\<rparr>"
  let ?seg2 = "?seg\<lparr>labeled := True,
      label_indexes := AList.update ?T (sort labelArray) (label_indexes ?seg)\<rparr>"
  have t1: "toggleSegment x ?T ?seg = Added ?seg1"
    using assms(1,2) by (rule toggleSegment_add)
  then have c1: "currentLabels False ?s1 = ?seg1"
    by (intro currentLabels_handleDirectClick_index) simp
  have a1: "map_of (label_indexes ?seg1) ?T = Some (sort (labelArray @ [x]))"
    by (simp add: update_conv')
  have T1: "currentLabelType ?s1 = ?T"
    by (rule currentLabelType_handleDirectClick_index)
  have t2: "toggleSegment x ?T ?seg1 = FoundAndRemoved ?seg2"
    using assms(1,2) by (rule toggleSegment_twice)
  then have "toggleSegment x (currentLabelType ?s1) (currentLabels False ?s1) =
      FoundAndRemoved ?seg2"
    by (simp add: c1 T1)
  then have c2: "currentLabels False (snd (handleDirectClick_index x ?s1)) = ?seg2"
    by (intro currentLabels_handleDirectClick_index) simp
  have "sort labelArray = labelArray"
    using assms(3) by (simp add: sort_key_id_if_sorted)
  then have l2: "label_indexes ?seg2 = label_indexes ?seg"
    using assms(2) by (simp add: update_same)
  have m: "mset (sort (labelArray @ [x])) = mset labelArray + {#x#}" by simp
  from t1 c1 a1 m T1 t2 c2 l2 show ?thesis by blast
qed


theorem click_twice_restores_witness:
  "noneNear TOLERANCE 100 (label_indexes exampleSegment) \<and>
   map_of (label_indexes exampleSegment) compression_systolic_points = Some [10, 16] \<and>
   sorted [10, 16 :: int] \<and>
   (\<exists>seg1 seg2 arr1.
      toggleSegment 100 compression_systolic_points exampleSegment = Added seg1 \<and>
      map_of (label_indexes seg1) compression_systolic_points = Some arr1 \<and>
      mset arr1 = {#10, 16, 100#} \<and>
      toggleSegment 100 compression_systolic_points seg1 = FoundAndRemoved seg2 \<and>
      currentLabels False
        (snd (handleDirectClick_index 100 (snd (handleDirectClick_index 100 exampleState)))) =
        seg2 \<and>
      label_indexes seg2 = label_indexes exampleSegment)"
proof -
  have m: "map_of (label_indexes exampleSegment) compression_systolic_points = Some [10, 16]"
    by (simp add: exampleSegment_def)
  have s: "sorted [10, 16 :: int]" by simp
  from click_twice_restores [of 100 exampleState "[10, 16]", unfolded exampleState_current,
      OF exampleSegment_far m s]
  obtain seg1 seg2 arr1 where
    "toggleSegment 100 compression_systolic_points exampleSegment = Added seg1"
    "map_of (label_indexes seg1) compression_systolic_points = Some arr1"
    "mset arr1 = mset [10, 16] + {#100#}"
    "toggleSegment 100 compression_systolic_points seg1 = FoundAndRemoved seg2"
    "currentLabels False
        (snd (handleDirectClick_index 100 (snd (handleDirectClick_index 100 exampleState)))) =
        seg2"
    "label_indexes seg2 = label_indexes exampleSegment"
    by blast
  then have "\<exists>seg1 seg2 arr1.
      toggleSegment 100 compression_systolic_points exampleSegment = Added seg1 \<and>
      map_of (label_indexes seg1) compression_systolic_points = Some arr1 \<and>
      mset arr1 = {#10, 16, 100#} \<and>
      toggleSegment 100 compression_systolic_points seg1 = FoundAndRemoved seg2 \<and>
      currentLabels False
        (snd (handleDirectClick_index 100 (snd (handleDirectClick_index 100 exampleState)))) =
        seg2 \<and>
      label_indexes seg2 = label_indexes exampleSegment"
    by (intro exI [of _ seg1] exI [of _ seg2] exI [of _ arr1]) simp
  with exampleSegment_far m s show ?thesis by blast
qed

lemma unsortedState_current:
  "currentLabels l unsortedState = unsortedSegment" "currentSegment unsortedState = 0"
  "currentLabelType unsortedState = compression_systolic_points"
  by (simp_all add: unsortedState_def initialState_def currentLabels_def)

lemma unsortedSegment_far: "noneNear TOLERANCE 100 (label_indexes unsortedSegment)"
  by (simp add: noneNear_def labelTypes_def unsortedSegment_def near_def TOLERANCE_def)

text \<open>
  C5 as stated fails on records that \<open>loadFile\<close> takes unchecked from a label file. On a
  record without a list for the selected type, a click away from every point is ended by
  the \<open>TypeError\<close> of \<open>push\<close> and adds nothing. On a record whose list of the selected type
  is [30, 10], a click at 100 adds the point and sorts the list, and the second click
  removes 100 and leaves [10, 30], which is not the list before the first click.
\<close>

theorem click_twice_loaded_counterexample:
  "partialState =
     selectLabelType compression_diastolic_points
       (loadFile ''rec1.h5'' None 3 (True, [(0, partialSegment)]) True initialState) \<and>
   noneNear TOLERANCE 100 (label_indexes (currentLabels False partialState)) \<and>
   toggleSegment 100 (currentLabelType partialState) (currentLabels False partialState) =
     PushOfUndefined \<and>
   snd (handleDirectClick_index 100 partialState) = partialState \<and>
   unsortedState =
     loadFile ''rec1.h5'' None 3 (True, [(0, unsortedSegment)]) True initialState \<and>
   noneNear TOLERANCE 100 (label_indexes (currentLabels False unsortedState)) \<and>
   map_of (label_indexes (currentLabels False unsortedState)) compression_systolic_points =
     Some [30, 10] \<and>
   map_of (label_indexes (currentLabels False (snd (handleDirectClick_index 100 unsortedState))))
     compression_systolic_points = Some [10, 30, 100] \<and>
   map_of (label_indexes (currentLabels False
       (snd (handleDirectClick_index 100 (snd (handleDirectClick_index 100 unsortedState))))))
     compression_systolic_points = Some [10, 30]"
proof -
  have 1: "partialState =
     selectLabelType compression_diastolic_points
       (loadFile ''rec1.h5'' None 3 (True, [(0, partialSegment)]) True initialState)"
    by (simp add: partialState_def selectLabelType_def loadFile_def saveIfDirty_def
        initialState_def)
  have 2: "noneNear TOLERANCE 100 (label_indexes (currentLabels False partialState))"
    unfolding partialState_current by (rule partialSegment_far)
  have m: "map_of (label_indexes (currentLabels False partialState))
      (currentLabelType partialState) = None"
    by (simp add: partialState_current partialSegment_def)
  have 3: "toggleSegment 100 (currentLabelType partialState)
      (currentLabels False partialState) = PushOfUndefined"
    using 2 m by (rule toggleSegment_throw)
  have r: "map_of (labels partialState) (currentSegment partialState) =
      Some (currentLabels False partialState)"
    by (simp add: partialState_def initialState_def currentLabels_def)
  have 4: "snd (handleDirectClick_index 100 partialState) = partialState"
    using handleDirectClick_index_throw [OF 3 r] by simp
  have 5: "unsortedState =
     loadFile ''rec1.h5'' None 3 (True, [(0, unsortedSegment)]) True initialState"
    by (simp add: unsortedState_def loadFile_def saveIfDirty_def initialState_def)
  have 6: "noneNear TOLERANCE 100 (label_indexes (currentLabels False unsortedState))"
    unfolding unsortedState_current by (rule unsortedSegment_far)
  have 7: "map_of (label_indexes (currentLabels False unsortedState))
      compression_systolic_points = Some [30, 10]"
    by (simp add: unsortedState_current unsortedSegment_def)
  let ?seg1 = "unsortedSegment
      \<lparr>labeled := True,
       label_indexes :=
         AList.update compression_systolic_points (sort ([30, 10] @ [100]))
           (label_indexes unsortedSegment)\<rparr>"
  have t1: "toggleSegment 100 (currentLabelType unsortedState)
      (currentLabels False unsortedState) = Added ?seg1"
    using 6 7 unfolding unsortedState_current by (rule toggleSegment_add)
  have c1: "currentLabels False (snd (handleDirectClick_index 100 unsortedState)) = ?seg1"
    by (rule currentLabels_handleDirectClick_index) (simp add: t1)
  have 8: "map_of (label_indexes (currentLabels False
      (snd (handleDirectClick_index 100 unsortedState)))) compression_systolic_points =
      Some [10, 30, 100]"
    unfolding c1 by (simp add: update_conv')
  let ?s1 = "snd (handleDirectClick_index 100 unsortedState)"
  let ?seg2 = "?seg1\<lparr>label_indexes :=
      AList.update compression_systolic_points ([10, 30] @ []) (label_indexes ?seg1)\<rparr>"
  have T1: "currentLabelType ?s1 = compression_systolic_points"
    by (simp add: currentLabelType_handleDirectClick_index unsortedState_current)
  have t2: "toggleSegment 100 compression_systolic_points ?seg1 = FoundAndRemoved ?seg2"
    by (simp add: toggleSegment_def unsortedSegment_def near_def TOLERANCE_def splice1_def)
  have c2: "currentLabels False (snd (handleDirectClick_index 100 ?s1)) = ?seg2"
  proof (rule currentLabels_handleDirectClick_index)
    show "toggleSegment 100 (currentLabelType ?s1) (currentLabels False ?s1) =
        FoundAndRemoved ?seg2 \<or>
      toggleSegment 100 (currentLabelType ?s1) (currentLabels False ?s1) = Added ?seg2"
      unfolding T1 c1 using t2 by (rule disjI1)
  qed
  have 9: "map_of (label_indexes (currentLabels False
       (snd (handleDirectClick_index 100 ?s1)))) compression_systolic_points = Some [10, 30]"
    unfolding c2 by (simp add: update_conv')
  from 1 2 3 4 5 6 7 8 9 show ?thesis by simp
qed

section \<open>Clicks at finite indices keep the arrays ascending and free of repetitions\<close>

lemma toggleSegment_sorted_distinct:
  assumes inv: "\<forall>t arr. map_of (label_indexes seg) t = Some arr \<longrightarrow> sorted arr \<and> distinct arr"
    and res: "toggleSegment x T seg = FoundAndRemoved seg' \<or> toggleSegment x T seg = Added seg'"
  shows "\<forall>t arr. map_of (label_indexes seg') t = Some arr \<longrightarrow> sorted arr \<and> distinct arr"
proof -
  let ?li = "label_indexes seg"
  from removeNearby_cases [of x "map fst ?li" ?li] show ?thesis
  proof (elim disjE conjE exE)
    assume nf: "removeNearby x (map fst ?li) ?li = NotFound"
      and far: "\<forall>u\<in>set (map fst ?li). \<exists>labelArray. map_of ?li u = Some labelArray \<and>
          (\<forall>q\<in>set labelArray. \<not> near TOLERANCE x q)"
    show ?thesis
    proof (cases "map_of ?li T")
      case None
      with nf res show ?thesis by (simp add: toggleSegment_def)
    next
      case (Some labelArray)
      then have "T \<in> set (map fst ?li)"
        using map_of_eq_None_iff [of ?li T] by force
      with far Some have "\<forall>q\<in>set labelArray. \<not> near TOLERANCE x q" by force
      then have "x \<notin> set labelArray" using near_self by blast
      moreover from inv Some have "sorted labelArray \<and> distinct labelArray" by blast
      ultimately have new: "sorted (sort (labelArray @ [x])) \<and> distinct (sort (labelArray @ [x]))"
        by simp
      from nf Some res
      have "label_indexes seg' = AList.update T (sort (labelArray @ [x])) ?li"
        by (auto simp: toggleSegment_def)
      with inv new show ?thesis by (auto simp: update_conv')
    qed
  next
    fix ts1 t ts2
    assume "removeNearby x (map fst ?li) ?li = FindIndexOfUndefined"
    with res show ?thesis by (simp add: toggleSegment_def)
  next
    fix ts1 t ts2 ys p zs
    assume m: "map_of ?li t = Some (ys @ p # zs)"
      and r: "removeNearby x (map fst ?li) ?li = Removed (AList.update t (ys @ zs) ?li)"
    from inv m have "sorted (ys @ p # zs) \<and> distinct (ys @ p # zs)" by blast
    then have new: "sorted (ys @ zs) \<and> distinct (ys @ zs)"
      by (auto simp: sorted_append)
    from r res have "label_indexes seg' = AList.update t (ys @ zs) ?li"
      by (auto simp: toggleSegment_def)
    with inv new show ?thesis by (auto simp: update_conv')
  qed
qed

lemma handleDirectClick_index_sorted_distinct:
  assumes inv: "\<forall>t arr. map_of (label_indexes (currentLabels False s)) t = Some arr \<longrightarrow>
      sorted arr \<and> distinct arr"
  shows "\<forall>t arr. map_of (label_indexes (currentLabels False (snd (handleDirectClick_index x s)))) t =
      Some arr \<longrightarrow> sorted arr \<and> distinct arr"
proof (cases "toggleSegment x (currentLabelType s) (currentLabels False s)")
  case (FoundAndRemoved seg')
  then have c: "currentLabels False (snd (handleDirectClick_index x s)) = seg'"
    by (intro currentLabels_handleDirectClick_index) simp
  from toggleSegment_sorted_distinct [OF inv disjI1 [OF FoundAndRemoved]] show ?thesis
    unfolding c .
next
  case (Added seg')
  then have c: "currentLabels False (snd (handleDirectClick_index x s)) = seg'"
    by (intro currentLabels_handleDirectClick_index) simp
  from toggleSegment_sorted_distinct [OF inv disjI2 [OF Added]] show ?thesis
    unfolding c .
next
  case PushOfUndefined
  then have "currentLabels False (snd (handleDirectClick_index x s)) = currentLabels False s"
    by (simp add: handleDirectClick_index_def currentLabels_setCurrentLabels)
  with inv show ?thesis by simp
qed

lemma label_indexes_currentLabels:
  "label_indexes (currentLabels l s) = label_indexes (currentLabels False s)"
  by (simp add: currentLabels_def defaultSegment_def split: option.splits)

lemma regionClick_points:
  "label_indexes (currentLabels False (regionClick i s)) = label_indexes (currentLabels False s)"
proof (cases "regionStart s")
  case None
  then show ?thesis by (simp add: regionClick_def currentLabels_def)
next
  case (Some start)
  let ?seg = "(currentLabels True s)\<lparr>highlighted_regions :=
      highlighted_regions (currentLabels True s) @
        [if start > i then (i, start) else (start, i)]\<rparr>"
  have "currentLabels False (regionClick i s) = ?seg"
    using Some
    by (simp add: regionClick_def Let_def currentLabels_def [of False]
        currentSegment_markLabelsDirty labels_markLabelsDirty setCurrentLabels_def update_conv')
  then show ?thesis
    using label_indexes_currentLabels [of True s] by simp
qed

lemma handleDirectClick_sorted_distinct:
  assumes inv: "\<forall>t arr. map_of (label_indexes (currentLabels False s)) t = Some arr \<longrightarrow>
      sorted arr \<and> distinct arr"
    and res: "handleDirectClick ev g s = Returned s' \<or> handleDirectClick ev g s = Threw s'"
  shows "\<forall>t arr. map_of (label_indexes (currentLabels False s')) t = Some arr \<longrightarrow>
      sorted arr \<and> distinct arr"
proof -
  have sndI: "s' = snd (handleDirectClick_index i s)"
    if "handleDirectClick_index i s = (e, s')" for i e
    using that by simp
  from res have "s' = s \<or> (\<exists>i. s' = regionClick i s) \<or>
      (\<exists>i. s' = snd (handleDirectClick_index i s))"
    by (auto simp: handleDirectClick_def dest: sndI
        split: if_splits option.splits sample_index.splits prod.splits ended.splits)
  with inv handleDirectClick_index_sorted_distinct [OF inv] show ?thesis
    by (auto simp: regionClick_points)
qed

text \<open>
  From a segment whose arrays are ascending and free of repetitions (a fresh record, or
  none yet), every run of clicks that stays within the finite sample indices leaves the
  arrays of the segment ascending and free of repetitions.
\<close>

lemma clicks_keep_sorted_distinct:
  assumes "\<forall>t arr. map_of (label_indexes (currentLabels False s)) t = Some arr \<longrightarrow>
      sorted arr \<and> distinct arr"
    and "clickSequence ops s = Returned s'"
  shows "\<forall>t arr. map_of (label_indexes (currentLabels False s')) t = Some arr \<longrightarrow>
      sorted arr \<and> distinct arr"
  using assms
proof (induction ops arbitrary: s)
  case Nil
  then show ?case by simp
next
  case (Cons op ops)
  obtain T ev g where op: "op = (T, ev, g)" by (cases op)
  let ?s0 = "selectLabelType T s"
  have inv0: "\<forall>t arr. map_of (label_indexes (currentLabels False ?s0)) t = Some arr \<longrightarrow>
      sorted arr \<and> distinct arr"
    using Cons.prems(1) by (simp add: currentLabels_def selectLabelType_def)
  show ?case
  proof (cases "handleDirectClick ev g ?s0")
    case (Returned s1)
    from handleDirectClick_sorted_distinct [OF inv0 disjI1 [OF Returned]]
    have "\<forall>t arr. map_of (label_indexes (currentLabels False s1)) t = Some arr \<longrightarrow>
      sorted arr \<and> distinct arr" .
    moreover from Cons.prems(2) op Returned have "clickSequence ops s1 = Returned s'" by simp
    ultimately show ?thesis by (rule Cons.IH)
  next
    case (Threw s1)
    from handleDirectClick_sorted_distinct [OF inv0 disjI2 [OF Threw]]
    have "\<forall>t arr. map_of (label_indexes (currentLabels False s1)) t = Some arr \<longrightarrow>
      sorted arr \<and> distinct arr" .
    moreover from Cons.prems(2) op Threw have "clickSequence ops s1 = Returned s'" by simp
    ultimately show ?thesis by (rule Cons.IH)
  next
    case (NonFiniteIndex v)
    with Cons.prems(2) op show ?thesis by simp
  qed
qed

lemma openedState_loaded:
  "openedState = loadFile ''rec1.h5'' None 3 (True, []) True initialState"
  by (simp add: openedState_def loadFile_def saveIfDirty_def initialState_def)



section \<open>The eraser step\<close>

lemma eraseLoop_filter:
  "i \<le> length arr \<Longrightarrow>
   eraseLoop c i (arr, m) =
     (filter (\<lambda>p. \<not> near ERASER_TOLERANCE c p) (take i arr) @ drop i arr,
      m \<or> (\<exists>p\<in>set (take i arr). near ERASER_TOLERANCE c p))"
proof (induction i arbitrary: arr m)
  case 0
  then show ?case by simp
next
  case (Suc i)
  then have lt: "i < length arr" by simp
  have tk: "take (Suc i) arr = take i arr @ [arr ! i]"
    using lt by (rule take_Suc_conv_app_nth)
  have dr: "drop i arr = arr ! i # drop (Suc i) arr"
    using lt by (simp add: Cons_nth_drop_Suc)
  show ?case
  proof (cases "near ERASER_TOLERANCE c (arr ! i)")
    case True
    have len: "i \<le> length (splice1 i arr)"
      using lt by (simp add: splice1_def)
    have t2: "take i (splice1 i arr) = take i arr"
      using lt by (simp add: splice1_def)
    have d2: "drop i (splice1 i arr) = drop (Suc i) arr"
      using lt by (simp add: splice1_def)
    from True show ?thesis
      by (simp add: Suc.IH [OF len] t2 d2 tk)
  next
    case False
    from lt have len: "i \<le> length arr" by simp
    from False show ?thesis
      by (simp add: Suc.IH [OF len] tk dr)
  qed
qed

lemma eraseLoop_whole:
  "eraseLoop c (length arr) (arr, m) =
     (filter (\<lambda>p. \<not> near ERASER_TOLERANCE c p) arr,
      m \<or> (\<exists>p\<in>set arr. near ERASER_TOLERANCE c p))"
  by (simp add: eraseLoop_filter)

text \<open>One round of the outer loop, whatever the array of the type.\<close>

lemma eraseTypes_step:
  "eraseTypes c (t # ts) (li, m) =
     (case map_of li t of
        None \<Rightarrow> eraseTypes c ts (li, m)
      | Some arr \<Rightarrow>
          eraseTypes c ts
            (AList.update t (filter (\<lambda>p. \<not> near ERASER_TOLERANCE c p) arr) li,
             m \<or> (\<exists>p\<in>set arr. near ERASER_TOLERANCE c p)))"
proof (cases "map_of li t")
  case None
  then show ?thesis by simp
next
  case (Some arr)
  show ?thesis
  proof (cases "arr = []")
    case True
    with Some show ?thesis by (simp add: update_same)
  next
    case False
    with Some show ?thesis by (simp add: eraseLoop_whole)
  qed
qed

lemma eraseTypes_keys: "map fst (fst (eraseTypes c ts (li, m))) = map fst li"
proof (induction ts arbitrary: li m)
  case Nil
  then show ?case by simp
next
  case (Cons t ts)
  show ?case
  proof (cases "map_of li t")
    case None
    then show ?thesis by (simp add: eraseTypes_step Cons.IH del: eraseTypes.simps)
  next
    case (Some arr)
    then have "t \<in> set (map fst li)"
      using map_of_eq_None_iff [of li t] by force
    with Some show ?thesis
      by (simp add: eraseTypes_step Cons.IH update_keys del: eraseTypes.simps)
  qed
qed

lemma eraseTypes_lookup:
  "map_of (fst (eraseTypes c ts (li, m))) t =
     (if t \<in> set ts then map_option (filter (\<lambda>p. \<not> near ERASER_TOLERANCE c p)) (map_of li t)
      else map_of li t)"
proof (induction ts arbitrary: li m)
  case Nil
  then show ?case by simp
next
  case (Cons u ts)
  show ?case
  proof (cases "map_of li u")
    case None
    then show ?thesis
      by (auto simp add: eraseTypes_step Cons.IH simp del: eraseTypes.simps)
  next
    case (Some arr)
    then show ?thesis
      by (auto simp add: eraseTypes_step Cons.IH update_conv' simp del: eraseTypes.simps)
  qed
qed

lemma eraseTypes_flag:
  "snd (eraseTypes c ts (li, m)) =
     (m \<or> (\<exists>t\<in>set ts. \<exists>arr. map_of li t = Some arr \<and>
              (\<exists>p\<in>set arr. near ERASER_TOLERANCE c p)))"
proof (induction ts arbitrary: li m)
  case Nil
  then show ?case by simp
next
  case (Cons u ts)
  show ?case
  proof (cases "map_of li u")
    case None
    then show ?thesis
      by (auto simp add: eraseTypes_step Cons.IH simp del: eraseTypes.simps)
  next
    case (Some arr)
    have later: "(\<exists>t\<in>set ts. \<exists>a. map_of (AList.update u
            (filter (\<lambda>p. \<not> near ERASER_TOLERANCE c p) arr) li) t = Some a \<and>
            (\<exists>p\<in>set a. near ERASER_TOLERANCE c p)) \<longleftrightarrow>
        (\<exists>t\<in>set ts. t \<noteq> u \<and> (\<exists>a. map_of li t = Some a \<and>
            (\<exists>p\<in>set a. near ERASER_TOLERANCE c p)))"
      by (auto simp: update_conv')
    from Some show ?thesis
      unfolding eraseTypes_step
      by (auto simp add: Cons.IH later simp del: eraseTypes.simps) (metis option.inject)
  qed
qed

lemma eraseTypes_idle:
  assumes "\<forall>t\<in>set ts. \<forall>arr. map_of li t = Some arr \<longrightarrow>
             (\<forall>p\<in>set arr. \<not> near ERASER_TOLERANCE c p)"
  shows "eraseTypes c ts (li, m) = (li, m)"
  using assms
proof (induction ts)
  case Nil
  then show ?case by simp
next
  case (Cons u ts)
  show ?case
  proof (cases "map_of li u")
    case None
    with Cons show ?thesis by (simp add: eraseTypes_step del: eraseTypes.simps)
  next
    case (Some arr)
    with Cons.prems have far: "\<forall>p\<in>set arr. \<not> near ERASER_TOLERANCE c p" by simp
    then have "filter (\<lambda>p. \<not> near ERASER_TOLERANCE c p) arr = arr" by simp
    with Some far Cons show ?thesis
      by (simp add: eraseTypes_step update_same del: eraseTypes.simps)
  qed
qed

lemma eraseAtIndex_present:
  assumes "map_of (labels s) (currentSegment s) = Some seg"
  shows "eraseAtIndex x s =
     (setCurrentLabels
        (seg\<lparr>label_indexes := fst (eraseTypes x labelTypes (label_indexes seg, False))\<rparr>) s)
     \<lparr>eraserModified :=
        (snd (eraseTypes x labelTypes (label_indexes seg, False)) \<or> eraserModified s)\<rparr>"
  using assms by (simp add: eraseAtIndex_def split: prod.splits)

lemma eraseAtIndex_absent:
  "map_of (labels s) (currentSegment s) = None \<Longrightarrow> eraseAtIndex x s = s"
  by (simp add: eraseAtIndex_def)

lemma eraseAtIndex_twice: "eraseAtIndex x (eraseAtIndex x s) = eraseAtIndex x s"
proof (cases "map_of (labels s) (currentSegment s)")
  case None
  then show ?thesis by (simp add: eraseAtIndex_absent)
next
  case (Some seg)
  let ?li' = "fst (eraseTypes x labelTypes (label_indexes seg, False))"
  let ?seg' = "seg\<lparr>label_indexes := ?li'\<rparr>"
  let ?s' = "eraseAtIndex x s"
  have s': "?s' = (setCurrentLabels ?seg' s)
     \<lparr>eraserModified :=
        (snd (eraseTypes x labelTypes (label_indexes seg, False)) \<or> eraserModified s)\<rparr>"
    using Some by (rule eraseAtIndex_present)
  have cur: "currentSegment ?s' = currentSegment s"
    by (simp add: s' setCurrentLabels_def)
  have m: "map_of (labels ?s') (currentSegment ?s') = Some ?seg'"
    by (simp add: s' setCurrentLabels_def update_conv')
  have "\<forall>t\<in>set labelTypes. \<forall>arr. map_of ?li' t = Some arr \<longrightarrow>
             (\<forall>p\<in>set arr. \<not> near ERASER_TOLERANCE x p)"
    by (auto simp: eraseTypes_lookup)
  then have idle: "eraseTypes x labelTypes (?li', False) = (?li', False)"
    by (rule eraseTypes_idle)
  have "eraseAtIndex x ?s' =
      (setCurrentLabels ?seg' ?s')\<lparr>eraserModified := eraserModified ?s'\<rparr>"
    unfolding eraseAtIndex_present [OF m] by (simp add: idle)
  also have "setCurrentLabels ?seg' ?s' = ?s'"
    using m by (rule setCurrentLabels_same)
  finally show ?thesis by simp
qed

lemma fst_eraseAtPositionNoUpdate: "fst (eraseAtPositionNoUpdate ev g s) = Undefined"
  by (simp add: eraseAtPositionNoUpdate_def split: option.splits sample_index.splits)

text \<open>
  C4 (as amended). The drag-erase step at sample index \<open>x\<close> removes, in all four types,
  every point whose distance from \<open>x\<close> is at most \<open>ERASER_TOLERANCE\<close> and keeps the others in
  place: the record keeps its keys in their order, the array of every key is the old one
  without those points, and the other fields stay. It raises \<open>eraserModified\<close> exactly when
  a point went (and never lowers it), and returns no value, so no count. An immediately
  repeated erase at the same \<open>x\<close> changes nothing. Without a record for the segment nothing
  happens. \<open>ERASER_TOLERANCE\<close> is strictly larger than \<open>TOLERANCE\<close>.
\<close>

theorem erase_removes_all_within_tolerance:
  "(\<forall>seg. map_of (labels s) (currentSegment s) = Some seg \<longrightarrow>
      (\<exists>li. map_of (labels (eraseAtIndex x s)) (currentSegment s) =
               Some (seg\<lparr>label_indexes := li\<rparr>) \<and>
            map fst li = map fst (label_indexes seg) \<and>
            (\<forall>t. map_of li t =
                   map_option (filter (\<lambda>p. \<not> near ERASER_TOLERANCE x p))
                     (map_of (label_indexes seg) t))) \<and>
      eraserModified (eraseAtIndex x s) =
        (eraserModified s \<or>
         (\<exists>t arr. map_of (label_indexes seg) t = Some arr \<and>
            (\<exists>p\<in>set arr. near ERASER_TOLERANCE x p)))) \<and>
   (map_of (labels s) (currentSegment s) = None \<longrightarrow> eraseAtIndex x s = s) \<and>
   eraseAtIndex x (eraseAtIndex x s) = eraseAtIndex x s \<and>
   fst (eraseAtPositionNoUpdate ev g s) = Undefined \<and>
   TOLERANCE < ERASER_TOLERANCE"
proof -
  have 1: "(\<exists>li. map_of (labels (eraseAtIndex x s)) (currentSegment s) =
               Some (seg\<lparr>label_indexes := li\<rparr>) \<and>
            map fst li = map fst (label_indexes seg) \<and>
            (\<forall>t. map_of li t =
                   map_option (filter (\<lambda>p. \<not> near ERASER_TOLERANCE x p))
                     (map_of (label_indexes seg) t))) \<and>
      eraserModified (eraseAtIndex x s) =
        (eraserModified s \<or>
         (\<exists>t arr. map_of (label_indexes seg) t = Some arr \<and>
            (\<exists>p\<in>set arr. near ERASER_TOLERANCE x p)))"
    if "map_of (labels s) (currentSegment s) = Some seg" for seg
  proof
    let ?li = "fst (eraseTypes x labelTypes (label_indexes seg, False))"
    have "map_of (labels (eraseAtIndex x s)) (currentSegment s) =
        Some (seg\<lparr>label_indexes := ?li\<rparr>)"
      unfolding eraseAtIndex_present [OF that]
      by (simp add: setCurrentLabels_def update_conv')
    moreover have "map fst ?li = map fst (label_indexes seg)"
      by (rule eraseTypes_keys)
    moreover have "\<forall>t. map_of ?li t =
        map_option (filter (\<lambda>p. \<not> near ERASER_TOLERANCE x p)) (map_of (label_indexes seg) t)"
      by (simp add: eraseTypes_lookup labelTypes_UNIV)
    ultimately show "\<exists>li. map_of (labels (eraseAtIndex x s)) (currentSegment s) =
               Some (seg\<lparr>label_indexes := li\<rparr>) \<and>
            map fst li = map fst (label_indexes seg) \<and>
            (\<forall>t. map_of li t =
                   map_option (filter (\<lambda>p. \<not> near ERASER_TOLERANCE x p))
                     (map_of (label_indexes seg) t))"
      by blast
    show "eraserModified (eraseAtIndex x s) =
        (eraserModified s \<or>
         (\<exists>t arr. map_of (label_indexes seg) t = Some arr \<and>
            (\<exists>p\<in>set arr. near ERASER_TOLERANCE x p)))"
      unfolding eraseAtIndex_present [OF that]
      by (auto simp: setCurrentLabels_def eraseTypes_flag labelTypes_UNIV)
  qed
  have 2: "TOLERANCE < ERASER_TOLERANCE"
    by (simp add: TOLERANCE_def ERASER_TOLERANCE_def)
  from 1 2 show ?thesis
    by (simp add: eraseAtIndex_absent eraseAtIndex_twice fst_eraseAtPositionNoUpdate)
qed

lemma exampleState_segment:
  "map_of (labels exampleState) (currentSegment exampleState) = Some exampleSegment"
  by (simp add: exampleState_def initialState_def)

text \<open>An object is determined by its keys in their order and the values under them.\<close>

lemma alist_determined:
  assumes "map fst li = map fst li'" and "distinct (map fst li')"
    and "\<forall>t. map_of li t = map_of li' t"
  shows "li = li'"
  using assms
proof (induction li arbitrary: li')
  case Nil
  then show ?case by simp
next
  case (Cons e li)
  from Cons.prems(1) obtain e' r' where l': "li' = e' # r'" and k: "fst e = fst e'"
    and ks: "map fst li = map fst r'"
    by (cases li') auto
  from Cons.prems(3) [rule_format, of "fst e"] l' k have v: "snd e = snd e'"
    by (cases e; cases e') simp
  from Cons.prems(2) l' have d: "distinct (map fst r')" and n': "fst e' \<notin> fst ` set r'"
    by simp_all
  from n' ks have n: "fst e' \<notin> fst ` set li"
    by (metis list.set_map)
  have "map_of li t = map_of r' t" for t
  proof (cases "t = fst e'")
    case True
    with n n' show ?thesis by (simp add: map_of_eq_None_iff [THEN iffD2])
  next
    case False
    with Cons.prems(3) [rule_format, of t] l' k show ?thesis
      by (cases e; cases e') simp
  qed
  then have "li = r'" using Cons.IH [OF ks d] by simp
  with l' k v show ?case by (cases e; cases e') simp
qed

theorem erase_removes_all_within_tolerance_witness:
  "map_of (labels exampleState) (currentSegment exampleState) = Some exampleSegment \<and>
   map_of (labels (eraseAtIndex 12 exampleState)) (currentSegment exampleState) =
     Some (exampleSegment
             \<lparr>label_indexes :=
                [(compression_systolic_points, []), (compression_diastolic_points, [40]),
                 (spontaneous_systolic_points, []), (spontaneous_diastolic_points, [])]\<rparr>) \<and>
   eraserModified (eraseAtIndex 12 exampleState)"
proof -
  let ?li' = "[(compression_systolic_points, []), (compression_diastolic_points, [40 :: int]),
      (spontaneous_systolic_points, []), (spontaneous_diastolic_points, [])]"
  from erase_removes_all_within_tolerance [of exampleState 12, THEN conjunct1, rule_format,
      OF exampleState_segment]
  obtain li where li: "map_of (labels (eraseAtIndex 12 exampleState))
        (currentSegment exampleState) = Some (exampleSegment\<lparr>label_indexes := li\<rparr>)"
      "map fst li = map fst (label_indexes exampleSegment)"
      "\<And>t. map_of li t =
          map_option (filter (\<lambda>p. \<not> near ERASER_TOLERANCE 12 p))
            (map_of (label_indexes exampleSegment) t)"
    and m: "eraserModified (eraseAtIndex 12 exampleState) =
        (eraserModified exampleState \<or>
         (\<exists>t arr. map_of (label_indexes exampleSegment) t = Some arr \<and>
            (\<exists>p\<in>set arr. near ERASER_TOLERANCE 12 p)))"
    by blast
  have k: "map fst li = map fst ?li'"
    using li(2) by (simp add: exampleSegment_def)
  have a: "map_of li t = map_of ?li' t" for t
    unfolding li(3)
    by (cases t) (simp_all add: exampleSegment_def near_def ERASER_TOLERANCE_def)
  have "li = ?li'"
    using k _ a [THEN allI] by (rule alist_determined) simp
  note li1 = li(1) [unfolded this]
  have "map_of (label_indexes exampleSegment) compression_systolic_points = Some [10, 16] \<and>
      (\<exists>p\<in>set [10, 16]. near ERASER_TOLERANCE 12 p)"
    by (simp add: exampleSegment_def near_def ERASER_TOLERANCE_def)
  then have "\<exists>t arr. map_of (label_indexes exampleSegment) t = Some arr \<and>
            (\<exists>p\<in>set arr. near ERASER_TOLERANCE 12 p)"
    by blast
  with m have e: "eraserModified (eraseAtIndex 12 exampleState)" by simp
  from exampleState_segment li1 e show ?thesis by blast
qed

lemma examplePointer_erase:
  "sampling_rate s = None \<Longrightarrow> fileData s \<Longrightarrow>
   snd (eraseAtPositionNoUpdate (examplePointer shift) exampleGraph s) = eraseAtIndex 12 s"
  by (simp add: eraseAtPositionNoUpdate_def exampleGraph_def examplePointer_index)
    (simp add: clickedTime_def examplePointer_def)

lemma allPoints_eraseAtIndex:
  assumes "map_of (labels s) (currentSegment s) = Some seg"
  shows "allPoints (label_indexes (currentLabels l (eraseAtIndex x s))) =
     filter (\<lambda>p. \<not> near ERASER_TOLERANCE x p) (allPoints (label_indexes seg))"
proof -
  have c: "currentLabels l (eraseAtIndex x s) =
      seg\<lparr>label_indexes := fst (eraseTypes x labelTypes (label_indexes seg, False))\<rparr>"
    unfolding eraseAtIndex_present [OF assms]
    by (simp add: currentLabels_def setCurrentLabels_def update_conv')
  have "(case map_of (fst (eraseTypes x labelTypes (label_indexes seg, False))) t of
           None \<Rightarrow> [] | Some labelArray \<Rightarrow> labelArray) =
        filter (\<lambda>p. \<not> near ERASER_TOLERANCE x p)
          (case map_of (label_indexes seg) t of None \<Rightarrow> [] | Some labelArray \<Rightarrow> labelArray)"
    for t
    by (simp add: eraseTypes_lookup labelTypes_UNIV split: option.splits)
  then show ?thesis
    unfolding c by (simp add: allPoints_def filter_concat comp_def)
qed

text \<open>
  C4 as stated fails where it has the erase return the count: in the example three points
  lie within eight samples of index 12, all three are removed, and the call yields
  \<open>undefined\<close>, as does the repeated call.
\<close>

theorem erase_returns_no_count_counterexample:
  "length (allPoints (label_indexes (currentLabels False exampleState))) -
   length (allPoints (label_indexes (currentLabels False
      (snd (eraseAtPositionNoUpdate (examplePointer True) exampleGraph exampleState))))) = 3 \<and>
   fst (eraseAtPositionNoUpdate (examplePointer True) exampleGraph exampleState) \<noteq> Number 3 \<and>
   fst (eraseAtPositionNoUpdate (examplePointer True) exampleGraph
      (snd (eraseAtPositionNoUpdate (examplePointer True) exampleGraph exampleState))) \<noteq> Number 0"
proof -
  have e: "snd (eraseAtPositionNoUpdate (examplePointer True) exampleGraph exampleState) =
      eraseAtIndex 12 exampleState"
    by (rule examplePointer_erase) (simp_all add: exampleState_def initialState_def)
  show ?thesis
    unfolding e allPoints_eraseAtIndex [OF exampleState_segment]
    by (simp add: fst_eraseAtPositionNoUpdate exampleState_current allPoints_def labelTypes_def
        exampleSegment_def near_def ERASER_TOLERANCE_def)
qed


section \<open>The right click\<close>
























section \<open>The labeled flag\<close>

text \<open>No editing operation takes the \<open>labeled\<close> flag of a segment back.\<close>

lemma labeledAt_setCurrentLabels:
  "labeledAt k (setCurrentLabels seg s) =
     (if k = currentSegment s then labeled seg else labeledAt k s)"
  by (simp add: labeledAt_def setCurrentLabels_def update_conv')

lemma labeledAt_markLabelsDirty: "labeledAt k (markLabelsDirty s) = labeledAt k s"
  by (simp add: labeledAt_def labels_markLabelsDirty)

lemma labeledAt_currentLabels:
  "labeledAt (currentSegment s) s \<Longrightarrow> labeled (currentLabels l s)"
  by (simp add: labeledAt_def currentLabels_def split: option.splits)

lemma labeledAt_Some:
  "map_of (labels s) (currentSegment s) = Some seg \<Longrightarrow>
   labeledAt (currentSegment s) s = labeled seg"
  by (simp add: labeledAt_def)

lemma labeledAt_updateDisplay_markLabelsDirty:
  "labeledAt k (snd (updateDisplay_markLabelsDirty s)) = labeledAt k s"
  by (simp add: labeledAt_def labels_updateDisplay_markLabelsDirty)

lemma labeledAt_handleDirectClick_index:
  assumes "labeledAt k s"
  shows "labeledAt k (snd (handleDirectClick_index x s))"
proof (cases "toggleSegment x (currentLabelType s) (currentLabels False s)")
  case (FoundAndRemoved seg)
  then have "labeled seg" using toggleSegment_labeled by blast
  with FoundAndRemoved assms show ?thesis
    by (simp add: handleDirectClick_index_def labeledAt_updateDisplay_markLabelsDirty
        labeledAt_setCurrentLabels)
next
  case (Added seg)
  then have "labeled seg" using toggleSegment_labeled by blast
  with Added assms show ?thesis
    by (simp add: handleDirectClick_index_def labeledAt_updateDisplay_markLabelsDirty
        labeledAt_setCurrentLabels)
next
  case PushOfUndefined
  with assms labeledAt_currentLabels [of s False] show ?thesis
    by (auto simp: handleDirectClick_index_def labeledAt_setCurrentLabels)
qed

lemma labeledAt_labels: "labels s' = labels s \<Longrightarrow> labeledAt k s' = labeledAt k s"
  by (simp add: labeledAt_def)

lemma labeledAt_regionClick:
  assumes "labeledAt k s"
  shows "labeledAt k (regionClick i s)"
proof (cases "regionStart s")
  case None
  with assms show ?thesis
    by (simp add: regionClick_def labeledAt_labels [of "s\<lparr>regionStart := Some i\<rparr>" s])
next
  case (Some start)
  let ?seg = "(currentLabels True s)\<lparr>highlighted_regions :=
      highlighted_regions (currentLabels True s) @
        [if start > i then (i, start) else (start, i)]\<rparr>"
  have "labeledAt k (setCurrentLabels ?seg s)"
    using assms labeledAt_currentLabels [of s True]
    by (auto simp: labeledAt_setCurrentLabels)
  then have "labeledAt k ((setCurrentLabels ?seg s)\<lparr>regionStart := None, regionEnd := None\<rparr>)"
    by (simp add: labeledAt_def)
  with Some show ?thesis
    by (simp add: regionClick_def Let_def labeledAt_markLabelsDirty)
qed

lemma labeledAt_handleGraphRightClick:
  "labeledAt k s \<Longrightarrow> labeledAt k (snd (handleGraphRightClick s))"
  by (simp add: handleGraphRightClick_def labeledAt_updateDisplay_markLabelsDirty
      labeledAt_setCurrentLabels split: option.splits scan_result.splits)

lemma labeledAt_eraseAtIndex: "labeledAt k (eraseAtIndex x s) = labeledAt k s"
proof (cases "map_of (labels s) (currentSegment s)")
  case None
  then show ?thesis by (simp add: eraseAtIndex_absent)
next
  case (Some seg)
  show ?thesis
    unfolding eraseAtIndex_present [OF Some]
    using Some by (simp add: labeledAt_def setCurrentLabels_def update_conv')
qed

lemma labeledAt_eraseAtPositionNoUpdate:
  "labeledAt k (snd (eraseAtPositionNoUpdate ev g s)) = labeledAt k s"
  by (simp add: eraseAtPositionNoUpdate_def labeledAt_eraseAtIndex
      split: option.splits sample_index.splits)

lemma labeledAt_handleEraserMouseUp:
  "labeledAt k s \<Longrightarrow> labeledAt k (snd (handleEraserMouseUp s))"
proof (cases "map_of (labels s) (currentSegment s)")
  case None
  assume "labeledAt k s"
  with None show ?thesis
    by (simp add: handleEraserMouseUp_def labeledAt_labels [of "s\<lparr>eraserActive := False\<rparr>" s])
next
  case (Some seg)
  assume "labeledAt k s"
  with Some show ?thesis
    by (simp add: handleEraserMouseUp_def labeledAt_updateDisplay_markLabelsDirty
        labeledAt_setCurrentLabels labeledAt_labels [of "s\<lparr>eraserActive := False\<rparr>" s])
qed

lemma labeledAt_handleEraserMouseDown:
  "labeledAt k (handleEraserMouseDown ev g s) = labeledAt k s"
  by (simp add: handleEraserMouseDown_def labeledAt_eraseAtPositionNoUpdate)
    (simp add: labeledAt_def)

lemma labeledAt_handleEraserMouseMove:
  "labeledAt k s \<Longrightarrow> labeledAt k (snd (handleEraserMouseMove ev g s))"
  by (simp add: handleEraserMouseMove_def labeledAt_eraseAtPositionNoUpdate
      labeledAt_handleEraserMouseUp)

lemma labeledAt_eraseCurrentTypeLabels:
  "labeledAt k s \<Longrightarrow> labeledAt k (snd (eraseCurrentTypeLabels confirmed s))"
proof (cases "map_of (labels s) (currentSegment s)")
  case None
  assume "labeledAt k s"
  with None show ?thesis by (simp add: eraseCurrentTypeLabels_def)
next
  case (Some seg)
  assume "labeledAt k s"
  with Some labeledAt_Some [OF Some] show ?thesis
    by (auto simp: eraseCurrentTypeLabels_def Let_def labeledAt_markLabelsDirty
        labeledAt_setCurrentLabels)
qed

lemma labeledAt_eraseUpslopeLabels:
  "labeledAt k s \<Longrightarrow> labeledAt k (snd (eraseUpslopeLabels t s))"
proof (cases "map_of (labels s) (currentSegment s)")
  case None
  assume "labeledAt k s"
  with None show ?thesis by (simp add: eraseUpslopeLabels_def)
next
  case (Some seg)
  assume "labeledAt k s"
  with Some labeledAt_Some [OF Some] show ?thesis
    by (auto simp: eraseUpslopeLabels_def labeledAt_updateDisplay_markLabelsDirty
        labeledAt_setCurrentLabels)
qed

lemma labeledAt_noteChange:
  "labeledAt k s \<Longrightarrow> labeledAt k (handleReviewNoteChange v s)"
  "labeledAt k s \<Longrightarrow> labeledAt k (handleRegionNoteChange v s)"
  using labeledAt_currentLabels [of s False]
  by (auto simp: handleReviewNoteChange_def handleRegionNoteChange_def
      labeledAt_markLabelsDirty labeledAt_setCurrentLabels)

lemma labels_updateReviewFilesState: "labels (updateReviewFilesState f s) = labels s"
  by (simp add: updateReviewFilesState_def Let_def)

lemma labeledAt_toggleReview:
  assumes "labeledAt k s"
  shows "labeledAt k (snd (toggleReview s))"
proof -
  let ?s1 = "setCurrentLabels
      ((currentLabels False s)\<lparr>review := \<not> review (currentLabels False s)\<rparr>) s"
  have 1: "labeledAt k ?s1"
    using assms labeledAt_currentLabels [of s False]
    by (auto simp: labeledAt_setCurrentLabels)
  have 2: "labeledAt k (markLabelsDirty (updateReviewFilesState f ?s1))" for f
    using 1 by (simp add: labeledAt_markLabelsDirty
        labeledAt_labels [OF labels_updateReviewFilesState])
  from assms 1 2 show ?thesis
    by (simp add: toggleReview_def Let_def split: option.splits)
qed

lemma labels_saveIfDirty: "labels (saveIfDirty ok s) = labels s"
  by (simp add: saveIfDirty_def saveLabels_def split: option.splits)

lemma labeledAt_navigateSegment:
  "labeledAt k (navigateSegment direction ok s) = labeledAt k s"
  by (simp add: navigateSegment_def Let_def labeledAt_def labels_saveIfDirty)

lemma labeledAt_editStep: "labeledAt k s \<Longrightarrow> labeledAt k (editStep e s)"
proof (cases e)
  case (Click i)
  then show "labeledAt k s \<Longrightarrow> ?thesis"
    by (simp add: labeledAt_regionClick labeledAt_handleDirectClick_index)
next
  case RightClick
  then show "labeledAt k s \<Longrightarrow> ?thesis" by (simp add: labeledAt_handleGraphRightClick)
next
  case (Hover x)
  then show "labeledAt k s \<Longrightarrow> ?thesis" by (simp add: labeledAt_def)
next
  case (EraserDown ev g)
  then show "labeledAt k s \<Longrightarrow> ?thesis" by (simp add: labeledAt_handleEraserMouseDown)
next
  case (EraserMove ev g)
  then show "labeledAt k s \<Longrightarrow> ?thesis" by (simp add: labeledAt_handleEraserMouseMove)
next
  case EraserUp
  then show "labeledAt k s \<Longrightarrow> ?thesis" by (simp add: labeledAt_handleEraserMouseUp)
next
  case EraserKeyUp
  then show "labeledAt k s \<Longrightarrow> ?thesis" by (simp add: handleEraserKeyUp_def labeledAt_def)
next
  case (SelectLabelType t)
  then show "labeledAt k s \<Longrightarrow> ?thesis" by (simp add: selectLabelType_def labeledAt_def)
next
  case ToggleRegionMode
  then show "labeledAt k s \<Longrightarrow> ?thesis" by (simp add: toggleRegionMode_def labeledAt_def)
next
  case (EraseCurrentType c)
  then show "labeledAt k s \<Longrightarrow> ?thesis" by (simp add: labeledAt_eraseCurrentTypeLabels)
next
  case (EraseUpslope t)
  then show "labeledAt k s \<Longrightarrow> ?thesis" by (simp add: labeledAt_eraseUpslopeLabels)
next
  case ReviewToggle
  then show "labeledAt k s \<Longrightarrow> ?thesis" by (simp add: labeledAt_toggleReview)
next
  case (ReviewNote v)
  then show "labeledAt k s \<Longrightarrow> ?thesis" by (simp add: labeledAt_noteChange)
next
  case (RegionNote v)
  then show "labeledAt k s \<Longrightarrow> ?thesis" by (simp add: labeledAt_noteChange)
next
  case (Navigate d ok)
  then show "labeledAt k s \<Longrightarrow> ?thesis" by (simp add: labeledAt_navigateSegment)
qed

lemma labeledAt_editRun: "labeledAt k s \<Longrightarrow> labeledAt k (editRun es s)"
  by (induction es arbitrary: s) (simp_all add: labeledAt_editStep)

lemma examplePointer_down:
  assumes "sampling_rate s = None" and "fileData s"
  shows "handleEraserMouseDown (examplePointer True) exampleGraph s =
     eraseAtIndex 12 (s\<lparr>eraserActive := True, eraserModified := False\<rparr>)"
  unfolding handleEraserMouseDown_def
  using assms by (simp add: examplePointer_erase) (simp add: examplePointer_def)

lemma singlePointState_down:
  "handleEraserMouseDown (examplePointer True) exampleGraph singlePointState =
     singlePointState
       \<lparr>labels := [(0, singlePointSegment\<lparr>label_indexes := emptyIndexes\<rparr>)],
        eraserActive := True, eraserModified := True\<rparr>"
proof -
  have p: "sampling_rate singlePointState = None" "fileData singlePointState"
    by (simp_all add: singlePointState_def initialState_def)
  show ?thesis
    unfolding examplePointer_down [OF p]
    by (simp add: eraseAtIndex_def eraseTypes_step labelTypes_def setCurrentLabels_def
        singlePointState_def singlePointSegment_def initialState_def emptyIndexes_def near_def
        ERASER_TOLERANCE_def del: eraseTypes.simps(2))
qed

text \<open>
  C10, at the input on which the code departs from it. The label file has a record for the
  first segment with one point, at 12, and \<open>labeled\<close> not set. The pointer goes down on the
  point with Shift held, which erases it; Shift is released; the pointer comes up. Then
  the segment has no point left, and its \<open>labeled\<close> flag is still unset and the labels are
  not marked dirty: \<open>handleEraserKeyUp\<close> has cleared \<open>eraserActive\<close>, so \<open>handleEraserMouseUp\<close>
  does nothing. When the release of Shift is noticed by a pointer move instead,
  \<open>handleEraserMouseMove\<close> calls \<open>handleEraserMouseUp\<close> while the eraser is still active,
  and the flag is set and the labels are marked dirty.
\<close>

theorem keyup_sweep_leaves_unlabeled:
  "singlePointState =
     loadFile ''rec1.h5'' None 3 (True, [(0, singlePointSegment)]) True initialState \<and>
   allPoints (label_indexes (currentLabels False singlePointState)) = [12] \<and>
   \<not> labeledAt 0 singlePointState \<and>
   allPoints (label_indexes (currentLabels False
      (editRun [EraserDown (examplePointer True) exampleGraph, EraserKeyUp, EraserUp]
         singlePointState))) = [] \<and>
   \<not> labeledAt 0
      (editRun [EraserDown (examplePointer True) exampleGraph, EraserKeyUp, EraserUp]
         singlePointState) \<and>
   \<not> labelsDirty
      (editRun [EraserDown (examplePointer True) exampleGraph, EraserKeyUp, EraserUp]
         singlePointState) \<and>
   allPoints (label_indexes (currentLabels False
      (editRun [EraserDown (examplePointer True) exampleGraph,
                EraserMove (examplePointer False) exampleGraph] singlePointState))) = [] \<and>
   labeledAt 0
      (editRun [EraserDown (examplePointer True) exampleGraph,
                EraserMove (examplePointer False) exampleGraph] singlePointState) \<and>
   labelsDirty
      (editRun [EraserDown (examplePointer True) exampleGraph,
                EraserMove (examplePointer False) exampleGraph] singlePointState)"
proof -
  have 1: "singlePointState =
     loadFile ''rec1.h5'' None 3 (True, [(0, singlePointSegment)]) True initialState"
    by (simp add: singlePointState_def loadFile_def saveIfDirty_def initialState_def)
  have 2: "allPoints (label_indexes (currentLabels False singlePointState)) = [12]"
    "\<not> labeledAt 0 singlePointState"
    by (simp_all add: allPoints_def labelTypes_def currentLabels_def labeledAt_def
        singlePointState_def singlePointSegment_def initialState_def)
  have 3: "editRun [EraserDown (examplePointer True) exampleGraph, EraserKeyUp, EraserUp]
         singlePointState =
     singlePointState
       \<lparr>labels := [(0, singlePointSegment\<lparr>label_indexes := emptyIndexes\<rparr>)],
        eraserActive := False, eraserModified := True\<rparr>"
    by (simp only: editRun.simps editStep.simps singlePointState_down)
      (simp add: handleEraserKeyUp_def handleEraserMouseUp_def)
  have 4: "editRun [EraserDown (examplePointer True) exampleGraph,
                EraserMove (examplePointer False) exampleGraph] singlePointState =
     markLabelsDirty
       (singlePointState
          \<lparr>labels := [(0, singlePointSegment\<lparr>labeled := True, label_indexes := emptyIndexes\<rparr>)],
           eraserActive := False, eraserModified := True\<rparr>)"
    by (simp only: editRun.simps editStep.simps singlePointState_down)
      (simp add: handleEraserMouseMove_def handleEraserMouseUp_def
        examplePointer_def updateDisplay_markLabelsDirty_def updateDisplay_def
        updateLabelCounts_def currentLabels_def setCurrentLabels_def labelTypes_def
        singlePointState_def singlePointSegment_def initialState_def emptyIndexes_def)
  have 5: "allPoints (label_indexes (currentLabels False
      (editRun [EraserDown (examplePointer True) exampleGraph, EraserKeyUp, EraserUp]
         singlePointState))) = []"
    "\<not> labeledAt 0
      (editRun [EraserDown (examplePointer True) exampleGraph, EraserKeyUp, EraserUp]
         singlePointState)"
    "\<not> labelsDirty
      (editRun [EraserDown (examplePointer True) exampleGraph, EraserKeyUp, EraserUp]
         singlePointState)"
    unfolding 3
    by (simp_all add: allPoints_def labelTypes_def currentLabels_def labeledAt_def
        singlePointState_def singlePointSegment_def initialState_def emptyIndexes_def)
  have 6: "allPoints (label_indexes (currentLabels False
      (editRun [EraserDown (examplePointer True) exampleGraph,
                EraserMove (examplePointer False) exampleGraph] singlePointState))) = []"
    "labeledAt 0
      (editRun [EraserDown (examplePointer True) exampleGraph,
                EraserMove (examplePointer False) exampleGraph] singlePointState)"
    "labelsDirty
      (editRun [EraserDown (examplePointer True) exampleGraph,
                EraserMove (examplePointer False) exampleGraph] singlePointState)"
    unfolding 4
    by (simp_all add: labelsDirty_markLabelsDirty labeledAt_markLabelsDirty
        currentLabels_def currentSegment_markLabelsDirty labels_markLabelsDirty)
      (simp_all add: allPoints_def labelTypes_def labeledAt_def
        singlePointState_def singlePointSegment_def initialState_def emptyIndexes_def)
  from 1 2 5 6 show ?thesis by blast
qed



section \<open>Auto-save\<close>

lemma clearTimeout_own:
  "\<forall>(due, h')\<in>set ts. h' = h \<Longrightarrow> clearTimeout h ts = []"
  by (induction ts) (auto simp: clearTimeout_def)

lemma timers_scheduleAutoSave:
  assumes "timerInv s"
  shows "timers (scheduleAutoSave s) = [(clock s + 2000, nextTimer s)]"
proof (cases "autoSaveTimeout s")
  case None
  with assms have "timers s = []"
    by (cases "timers s") (auto simp: timerInv_def)
  with None show ?thesis by (simp add: scheduleAutoSave_def)
next
  case (Some h)
  with assms have "\<forall>(due, h')\<in>set (timers s). h' = h"
    by (auto simp: timerInv_def)
  then have "clearTimeout h (timers s) = []" by (rule clearTimeout_own)
  with Some show ?thesis by (simp add: scheduleAutoSave_def)
qed

lemma timerInv_labelsDirty: "timerInv (s\<lparr>labelsDirty := b\<rparr>) = timerInv s"
  by (simp add: timerInv_def)

lemma markLabelsDirty_sched:
  assumes "timerInv s"
  shows "timers (markLabelsDirty s) = [(clock s + 2000, nextTimer s)]"
    and "autoSaveTimeout (markLabelsDirty s) = Some (nextTimer s)"
    and "labelsDirty (markLabelsDirty s)"
    and "saveCalls (markLabelsDirty s) = saveCalls s"
    and "currentFile (markLabelsDirty s) = currentFile s"
    and "clock (markLabelsDirty s) = clock s"
proof -
  have "timerInv (s\<lparr>labelsDirty := True\<rparr>)"
    using assms by (simp add: timerInv_labelsDirty)
  from timers_scheduleAutoSave [OF this]
  show "timers (markLabelsDirty s) = [(clock s + 2000, nextTimer s)]"
    by (simp add: markLabelsDirty_def)
  show "autoSaveTimeout (markLabelsDirty s) = Some (nextTimer s)"
    "labelsDirty (markLabelsDirty s)"
    "saveCalls (markLabelsDirty s) = saveCalls s"
    "currentFile (markLabelsDirty s) = currentFile s"
    "clock (markLabelsDirty s) = clock s"
    by (simp_all add: markLabelsDirty_def scheduleAutoSave_def Let_def)
qed

lemma timerInv_markLabelsDirty: "timerInv s \<Longrightarrow> timerInv (markLabelsDirty s)"
  by (simp add: timerInv_def [of "markLabelsDirty s"] markLabelsDirty_sched)

lemma timerInv_saveLabels: "timerInv (saveLabels ok s) = timerInv s"
  by (simp add: saveLabels_def timerInv_def)

lemma timerInv_saveIfDirty:
  assumes "timerInv s"
  shows "timerInv (saveIfDirty ok s)"
proof (cases "autoSaveTimeout s")
  case None
  with assms show ?thesis
    by (simp add: saveIfDirty_def timerInv_saveLabels)
next
  case (Some h)
  with assms have "\<forall>(due, h')\<in>set (timers s). h' = h"
    by (auto simp: timerInv_def)
  then have "clearTimeout h (timers s) = []" by (rule clearTimeout_own)
  then have "timerInv (s\<lparr>timers := clearTimeout h (timers s), autoSaveTimeout := None\<rparr>)"
    by (simp add: timerInv_def)
  with assms Some show ?thesis
    by (simp add: saveIfDirty_def timerInv_saveLabels)
qed

lemma fireAll_sched:
  "timers (fireAll ok ts s) = timers s"
  "autoSaveTimeout (fireAll ok ts s) = autoSaveTimeout s"
  by (induction ts arbitrary: s) (simp_all add: autoSaveCallback_def saveLabels_def)

lemma timerInv_elapse: "timerInv s \<Longrightarrow> timerInv (elapse d ok s)"
  by (auto simp: elapse_def Let_def timerInv_def fireAll_sched)

lemma timerInv_schedStep: "timerInv s \<Longrightarrow> timerInv (schedStep e s)"
  by (cases e) (simp_all add: timerInv_markLabelsDirty timerInv_saveIfDirty timerInv_elapse)

lemma timerInv_schedRun: "timerInv s \<Longrightarrow> timerInv (schedRun es s)"
  by (induction es arbitrary: s) (simp_all add: timerInv_schedStep)

lemma timerInv_initialState: "timerInv initialState"
  by (simp add: timerInv_def initialState_def)

lemma timerInv_sched:
  "timers s' = timers s \<Longrightarrow> autoSaveTimeout s' = autoSaveTimeout s \<Longrightarrow>
   timerInv s' = timerInv s"
  by (simp add: timerInv_def)

lemma timerInv_setCurrentLabels: "timerInv (setCurrentLabels seg s) = timerInv s"
  by (simp add: timerInv_def setCurrentLabels_def)

lemma timerInv_eraseAtIndex: "timerInv (eraseAtIndex x s) = timerInv s"
  by (simp add: eraseAtIndex_def timerInv_def setCurrentLabels_def
      split: option.splits prod.splits)

lemma erase_cases:
  "snd (eraseAtPositionNoUpdate ev g s) = s \<or>
   (\<exists>i. snd (eraseAtPositionNoUpdate ev g s) = eraseAtIndex i s)"
  by (auto simp: eraseAtPositionNoUpdate_def split: option.splits sample_index.splits)

lemma timerInv_updateDisplay_markLabelsDirty:
  "timerInv s \<Longrightarrow> timerInv (snd (updateDisplay_markLabelsDirty s))"
  by (simp add: updateDisplay_markLabelsDirty_def timerInv_markLabelsDirty)

lemma timerInv_eraseAtPositionNoUpdate:
  "timerInv (snd (eraseAtPositionNoUpdate ev g s)) = timerInv s"
  using erase_cases [of ev g s] by (auto simp: timerInv_eraseAtIndex)

lemma timerInv_handleEraserMouseUp:
  "timerInv s \<Longrightarrow> timerInv (snd (handleEraserMouseUp s))"
proof -
  assume a: "timerInv s"
  then have b: "timerInv (s\<lparr>eraserActive := False\<rparr>)" by (simp add: timerInv_def)
  then have "timerInv (snd (updateDisplay_markLabelsDirty
      (setCurrentLabels seg (s\<lparr>eraserActive := False\<rparr>))))" for seg
    by (simp add: timerInv_updateDisplay_markLabelsDirty timerInv_setCurrentLabels)
  with a b show ?thesis
    by (simp add: handleEraserMouseUp_def split: option.splits)
qed

lemma timerInv_updateReviewFilesState: "timerInv (updateReviewFilesState f s) = timerInv s"
  by (simp add: updateReviewFilesState_def Let_def timerInv_def)

lemma timerInv_editStep: "timerInv s \<Longrightarrow> timerInv (editStep e s)"
proof (cases e)
  case (Click i)
  assume a: "timerInv s"
  then have "timerInv (s\<lparr>regionStart := Some i\<rparr>)" by (simp add: timerInv_def)
  moreover have "timerInv (markLabelsDirty
      ((setCurrentLabels seg s)\<lparr>regionStart := None, regionEnd := None\<rparr>))" for seg
  proof -
    have "timerInv ((setCurrentLabels seg s)\<lparr>regionStart := None, regionEnd := None\<rparr>)"
      using a by (simp add: timerInv_def setCurrentLabels_def)
    then show ?thesis by (rule timerInv_markLabelsDirty)
  qed
  ultimately show ?thesis
    using a Click
    by (simp add: regionClick_def Let_def handleDirectClick_index_def
        timerInv_updateDisplay_markLabelsDirty timerInv_setCurrentLabels
        split: option.splits toggle_result.splits)
next
  case RightClick
  assume "timerInv s"
  with RightClick show ?thesis
    by (simp add: handleGraphRightClick_def timerInv_updateDisplay_markLabelsDirty
        timerInv_setCurrentLabels split: option.splits scan_result.splits)
next
  case (Hover x)
  assume "timerInv s"
  with Hover show ?thesis by (simp add: timerInv_def)
next
  case (EraserDown ev g)
  assume a: "timerInv s"
  then have "timerInv (s\<lparr>eraserActive := True, eraserModified := False\<rparr>)"
    by (simp add: timerInv_def)
  with a EraserDown show ?thesis
    by (simp add: handleEraserMouseDown_def timerInv_eraseAtPositionNoUpdate)
next
  case (EraserMove ev g)
  assume "timerInv s"
  with EraserMove show ?thesis
    by (simp add: handleEraserMouseMove_def timerInv_eraseAtPositionNoUpdate
        timerInv_handleEraserMouseUp)
next
  case EraserUp
  assume "timerInv s"
  with EraserUp show ?thesis by (simp add: timerInv_handleEraserMouseUp)
next
  case EraserKeyUp
  assume "timerInv s"
  with EraserKeyUp show ?thesis by (simp add: handleEraserKeyUp_def timerInv_def)
next
  case (SelectLabelType t)
  assume "timerInv s"
  with SelectLabelType show ?thesis by (simp add: selectLabelType_def timerInv_def)
next
  case ToggleRegionMode
  assume "timerInv s"
  with ToggleRegionMode show ?thesis by (simp add: toggleRegionMode_def timerInv_def)
next
  case (EraseCurrentType c)
  assume "timerInv s"
  with EraseCurrentType show ?thesis
    by (simp add: eraseCurrentTypeLabels_def Let_def timerInv_markLabelsDirty
        timerInv_setCurrentLabels split: option.splits)
next
  case (EraseUpslope t)
  assume "timerInv s"
  with EraseUpslope show ?thesis
    by (simp add: eraseUpslopeLabels_def timerInv_updateDisplay_markLabelsDirty
        timerInv_setCurrentLabels split: option.splits)
next
  case (ReviewNote v)
  assume "timerInv s"
  with ReviewNote show ?thesis
    by (simp add: handleReviewNoteChange_def timerInv_markLabelsDirty
        timerInv_setCurrentLabels)
next
  case (RegionNote v)
  assume "timerInv s"
  with RegionNote show ?thesis
    by (simp add: handleRegionNoteChange_def timerInv_markLabelsDirty
        timerInv_setCurrentLabels)
next
  case ReviewToggle
  assume "timerInv s"
  with ReviewToggle show ?thesis
    by (simp add: toggleReview_def Let_def timerInv_markLabelsDirty
        timerInv_updateReviewFilesState timerInv_setCurrentLabels split: option.splits)
next
  case (Navigate d ok)
  assume a: "timerInv s"
  then have "timerInv (saveIfDirty ok s)" by (rule timerInv_saveIfDirty)
  then have "timerInv ((saveIfDirty ok s)\<lparr>currentSegment := n\<rparr>)" for n
    by (simp add: timerInv_def)
  with a Navigate show ?thesis by (simp add: navigateSegment_def Let_def)
qed

lemma timerInv_editRun: "timerInv s \<Longrightarrow> timerInv (editRun es s)"
  by (induction es arbitrary: s) (simp_all add: timerInv_editStep)

lemma elapse_not_due:
  "\<forall>(due, h)\<in>set (timers s). clock s + d < due \<Longrightarrow> elapse d ok s = s\<lparr>clock := clock s + d\<rparr>"
proof -
  assume a: "\<forall>(due, h)\<in>set (timers s). clock s + d < due"
  then have 1: "filter (\<lambda>(due, h). due \<le> clock s + d) (timers s) = []"
    by (auto simp: filter_empty_conv)
  from a have 2: "filter (\<lambda>(due, h). \<not> due \<le> clock s + d) (timers s) = timers s"
    by (auto simp: filter_id_conv)
  show ?thesis by (simp add: elapse_def Let_def 1 2)
qed

lemma elapse_no_timers:
  "timers s = [] \<Longrightarrow> elapse d ok s = s\<lparr>clock := clock s + d\<rparr>"
  by (simp add: elapse_not_due)

lemma schedRun_elapses_idle:
  "timers s = [] \<Longrightarrow> \<forall>e\<in>set es. isElapse e \<Longrightarrow>
   saveCalls (schedRun es s) = saveCalls s \<and> timers (schedRun es s) = []"
proof (induction es arbitrary: s)
  case Nil
  then show ?case by simp
next
  case (Cons e es)
  from Cons.prems(2) obtain d ok where e: "e = Elapse d ok"
    by (cases e) auto
  have st: "schedStep e s = s\<lparr>clock := clock s + d\<rparr>"
    using Cons.prems(1) e by (simp add: elapse_no_timers)
  have "saveCalls (schedRun es (schedStep e s)) = saveCalls (schedStep e s) \<and>
      timers (schedRun es (schedStep e s)) = []"
    using Cons.prems by (intro Cons.IH) (simp_all add: st)
  then show ?case by (simp add: st)
qed

lemma flush_after_mark:
  assumes inv: "timerInv s" and opened: "currentFile s \<noteq> None" and d: "d < 2000"
  shows "saveCalls (saveIfDirty ok (elapse d ok0 (markLabelsDirty s))) = Suc (saveCalls s)"
    and "timers (saveIfDirty ok (elapse d ok0 (markLabelsDirty s))) = []"
    and "autoSaveTimeout (saveIfDirty ok (elapse d ok0 (markLabelsDirty s))) = None"
proof -
  let ?s1 = "markLabelsDirty s"
  note m = markLabelsDirty_sched [OF inv]
  have "\<forall>(due, h)\<in>set (timers ?s1). clock ?s1 + d < due"
    using d by (simp add: m)
  then have e: "elapse d ok0 ?s1 = ?s1\<lparr>clock := clock ?s1 + d\<rparr>"
    by (rule elapse_not_due)
  show "saveCalls (saveIfDirty ok (elapse d ok0 ?s1)) = Suc (saveCalls s)"
    using opened by (simp add: e saveIfDirty_def saveLabels_def m)
  show "timers (saveIfDirty ok (elapse d ok0 ?s1)) = []"
    using opened by (simp add: e saveIfDirty_def saveLabels_def m clearTimeout_def)
  show "autoSaveTimeout (saveIfDirty ok (elapse d ok0 ?s1)) = None"
    using opened by (simp add: e saveIfDirty_def saveLabels_def m)
qed

text \<open>
  C6 (as amended). In a state where a file is open and every armed timeout is the one
  recorded in \<open>autoSaveTimeout\<close> (which holds initially and after every step of the
  scheduler and of the editing handlers), marking the labels dirty and flushing before
  the 2000 ms have passed makes exactly one call of the persistence interface, whether or
  not that call succeeds; the flush takes the pending timeout off the queue and clears the
  stored handle, and however much time passes afterwards no further call is made.
\<close>

theorem flush_saves_once:
  assumes "timerInv s" and "currentFile s \<noteq> None" and "d < 2000"
  shows "saveCalls (saveIfDirty ok (elapse d ok0 (markLabelsDirty s))) = Suc (saveCalls s) \<and>
     timers (saveIfDirty ok (elapse d ok0 (markLabelsDirty s))) = [] \<and>
     autoSaveTimeout (saveIfDirty ok (elapse d ok0 (markLabelsDirty s))) = None \<and>
     (\<forall>es. (\<forall>e\<in>set es. isElapse e) \<longrightarrow>
        saveCalls (schedRun es (saveIfDirty ok (elapse d ok0 (markLabelsDirty s)))) =
          Suc (saveCalls s))"
  using flush_after_mark [OF assms, of ok ok0]
    schedRun_elapses_idle [of "saveIfDirty ok (elapse d ok0 (markLabelsDirty s))"]
  by simp

theorem flush_saves_once_witness:
  "timerInv exampleState \<and> currentFile exampleState \<noteq> None \<and> (500 :: nat) < 2000 \<and>
   saveCalls (saveIfDirty True (elapse 500 True (markLabelsDirty exampleState))) = 1 \<and>
   saveCalls (schedRun [Elapse 1500 True, Elapse 4000 True]
      (saveIfDirty True (elapse 500 True (markLabelsDirty exampleState)))) = 1"
proof -
  have a: "timerInv exampleState" "currentFile exampleState \<noteq> None" "(500 :: nat) < 2000"
    "saveCalls exampleState = 0"
    by (simp_all add: timerInv_def exampleState_def initialState_def)
  note all = flush_saves_once [OF a(1-3), of True True]
  note later = all [THEN conjunct2, THEN conjunct2, THEN conjunct2, rule_format,
      of "[Elapse 1500 True, Elapse 4000 True]"]
  have "saveCalls (schedRun [Elapse 1500 True, Elapse 4000 True]
      (saveIfDirty True (elapse 500 True (markLabelsDirty exampleState)))) =
      Suc (saveCalls exampleState)"
    by (rule later) auto
  with all a show ?thesis by simp
qed

text \<open>
  C6 as stated fails when the dirty flag is set while no file is open, as typing a review
  note before opening a file does: the flush then neither saves nor cancels the timeout,
  and the timeout, when it fires, does not save either.
\<close>

theorem flush_without_file_counterexample:
  "labelsDirty (handleReviewNoteChange ''check'' initialState) \<and>
   saveCalls (saveIfDirty True (handleReviewNoteChange ''check'' initialState)) =
     saveCalls initialState \<and>
   timers (saveIfDirty True (handleReviewNoteChange ''check'' initialState)) = [(2000, 1)] \<and>
   saveCalls (elapse 2000 True (saveIfDirty True (handleReviewNoteChange ''check'' initialState))) =
     saveCalls initialState"
  by (simp add: handleReviewNoteChange_def setCurrentLabels_def markLabelsDirty_def
      scheduleAutoSave_def saveIfDirty_def elapse_def autoSaveCallback_def initialState_def)


section \<open>Review and done\<close>

lemma hasReview_iff: "hasReview ls \<longleftrightarrow> (\<exists>k seg. map_of ls k = Some seg \<and> review seg)"
proof
  assume "hasReview ls"
  then obtain k where "reviewAt ls k"
    by (auto simp: hasReview_def list_ex_iff)
  then show "\<exists>k seg. map_of ls k = Some seg \<and> review seg"
    by (auto simp: reviewAt_def split: option.splits)
next
  assume "\<exists>k seg. map_of ls k = Some seg \<and> review seg"
  then obtain k seg where ks: "map_of ls k = Some seg" "review seg" by blast
  then have "k \<in> set (map fst ls)"
    by (metis map_of_eq_None_iff option.distinct(1) set_map)
  moreover from ks have "reviewAt ls k" by (simp add: reviewAt_def)
  ultimately show "hasReview ls"
    by (auto simp: hasReview_def list_ex_iff)
qed

lemma sort_empty_iff: "(sort xs = []) = (xs = [])"
  by (metis length_0_conv length_sort)

lemma getSegmentsWithReview_empty:
  "(getSegmentsWithReview s = []) = (\<not> hasReview (labels s))"
  by (auto simp: getSegmentsWithReview_def hasReview_def list_ex_iff filter_empty_conv
      sort_empty_iff)

lemma reviewAt_hasReview: "reviewAt ls k \<Longrightarrow> hasReview ls"
  by (auto simp: hasReview_iff reviewAt_def split: option.splits)

lemma toggleReview_rejected:
  "currentFile s = Some f \<Longrightarrow> f \<in> set (doneFiles s) \<Longrightarrow>
   \<not> reviewAt (labels s) (currentSegment s) \<Longrightarrow> toggleReview s = (Returns, s)"
  by (simp add: toggleReview_def)

lemma labels_toggleReview_accepted:
  assumes "currentFile s = Some f" "reviewAt (labels s) (currentSegment s) \<or> f \<notin> set (doneFiles s)"
  shows "labels (snd (toggleReview s)) =
     AList.update (currentSegment s)
       ((currentLabels False s)\<lparr>review := \<not> review (currentLabels False s)\<rparr>) (labels s)"
  using assms
  by (auto simp: toggleReview_def Let_def labels_markLabelsDirty updateReviewFilesState_def
      setCurrentLabels_def)

lemma toggleReview_off:
  assumes "currentFile s = Some f" "reviewAt (labels s) (currentSegment s)"
  shows "\<not> reviewAt (labels (snd (toggleReview s))) (currentSegment s)"
proof -
  from assms(2) have "review (currentLabels False s)"
    by (simp add: reviewAt_def currentLabels_def split: option.splits)
  then show ?thesis
    by (simp add: labels_toggleReview_accepted [OF assms(1) disjI1 [OF assms(2)]]
        reviewAt_def update_conv')
qed

lemma toggleDone_request_blocked:
  "currentFile s = Some f \<Longrightarrow> f \<notin> set (doneFiles s) \<Longrightarrow> hasReview (labels s) \<Longrightarrow>
   toggleDone_request s = None"
  by (simp add: toggleDone_request_def getSegmentsWithReview_empty)

lemma toggleDone_blocked:
  "currentFile s = Some f \<Longrightarrow> f \<notin> set (doneFiles s) \<Longrightarrow> hasReview (labels s) \<Longrightarrow>
   toggleDone result s = s"
  by (simp add: toggleDone_def toggleDone_request_blocked)

lemma consistent_toggleReview:
  assumes "consistent s"
  shows "consistent (snd (toggleReview s))"
proof (cases "currentFile s")
  case None
  with assms show ?thesis
    by (simp add: toggleReview_def Let_def consistent_def setCurrentLabels_def)
next
  case (Some f)
  let ?cur = "reviewAt (labels s) (currentSegment s)"
  show ?thesis
  proof (cases "f \<in> set (doneFiles s)")
    case True
    with assms Some have "\<not> hasReview (labels s)" by (simp add: consistent_def)
    then have "\<not> ?cur" using reviewAt_hasReview by blast
    with Some True have "toggleReview s = (Returns, s)" by (rule toggleReview_rejected)
    with assms show ?thesis by simp
  next
    case False
    let ?s1 = "setCurrentLabels
        ((currentLabels False s)\<lparr>review := \<not> review (currentLabels False s)\<rparr>) s"
    have tr: "snd (toggleReview s) = markLabelsDirty (updateReviewFilesState f ?s1)"
      using Some False by (simp add: toggleReview_def Let_def)
    have fields: "currentFile (snd (toggleReview s)) = Some f"
      "doneFiles (snd (toggleReview s)) = doneFiles s"
      "labels (snd (toggleReview s)) = labels ?s1"
      "reviewFiles (snd (toggleReview s)) = reviewFiles (updateReviewFilesState f ?s1)"
      unfolding tr
      by (simp_all add: markLabelsDirty_def scheduleAutoSave_def Let_def
          updateReviewFilesState_def setCurrentLabels_def Some)
    have rf1: "reviewFiles ?s1 = reviewFiles s" by (simp add: setCurrentLabels_def)
    from assms have dist: "distinct (reviewFiles s)" by (simp add: consistent_def)
    have d': "distinct (reviewFiles (updateReviewFilesState f ?s1))"
      using dist by (simp add: updateReviewFilesState_def Let_def rf1)
    have r': "stripExtension f \<in> set (reviewFiles (updateReviewFilesState f ?s1)) \<longrightarrow>
        hasReview (labels ?s1)"
      using dist by (auto simp: updateReviewFilesState_def Let_def rf1)
    from d' r' False show ?thesis
      unfolding consistent_def fields by simp
  qed
qed

lemma consistent_toggleDone:
  assumes "consistent s"
  shows "consistent (toggleDone result s)"
proof (cases "currentFile s")
  case None
  with assms show ?thesis by (simp add: toggleDone_def toggleDone_request_def)
next
  case (Some f)
  show ?thesis
  proof (cases "f \<notin> set (doneFiles s) \<and> hasReview (labels s)")
    case True
    with Some have "toggleDone result s = s" by (simp add: toggleDone_blocked)
    with assms show ?thesis by simp
  next
    case False
    with assms Some have "\<not> hasReview (labels s)"
      by (auto simp: consistent_def)
    with assms Some show ?thesis
      by (auto simp: toggleDone_def toggleDone_request_def toggleDone_reply_def consistent_def
          getSegmentsWithReview_empty)
  qed
qed

lemma consistent_navigateSegment:
  "consistent s \<Longrightarrow> consistent (navigateSegment direction ok s)"
  by (simp add: navigateSegment_def Let_def consistent_def saveIfDirty_def saveLabels_def
      split: option.splits)

lemma consistent_markerStep:
  "uninterrupted e \<Longrightarrow> consistent (snd c) \<Longrightarrow> consistent (snd (markerStep e c))"
  by (cases c; cases e) (simp_all add: consistent_toggleReview consistent_toggleDone
      consistent_navigateSegment)

lemma consistent_markerRun:
  "list_all uninterrupted es \<Longrightarrow> consistent (snd c) \<Longrightarrow> consistent (snd (markerRun es c))"
  by (induction es arbitrary: c) (simp_all add: consistent_markerStep)

lemma consistent_not_both:
  "consistent s \<Longrightarrow> currentFile s = Some f \<Longrightarrow> \<not> inDoneAndReview f s"
  by (auto simp: consistent_def inDoneAndReview_def)

lemma consistent_initialState: "consistent initialState"
  by (simp add: consistent_def initialState_def)

lemma stripExtension_rec1: "stripExtension ''rec1.h5'' = ''rec1''"
  by (simp add: stripExtension_def endsWith_def toLowerCase_def toLowerChar_def)

lemma currentFile_markerStep: "currentFile (snd (markerStep e c)) = currentFile (snd c)"
proof (cases c)
  case (Pair pending s)
  show ?thesis
  proof (cases e)
    case ToggleReview
    with Pair show ?thesis
      by (simp add: toggleReview_def Let_def markLabelsDirty_def scheduleAutoSave_def
          updateReviewFilesState_def setCurrentLabels_def split: option.splits)
  next
    case (ToggleDone ok files)
    with Pair show ?thesis
      by (simp add: toggleDone_def toggleDone_reply_def split: option.splits)
  next
    case DoneRequest
    with Pair show ?thesis by (simp split: option.splits)
  next
    case (DoneReply ok files)
    with Pair show ?thesis by (simp add: toggleDone_reply_def split: nat.splits)
  next
    case (NavigateSegment direction ok)
    with Pair show ?thesis
      by (simp add: navigateSegment_def Let_def saveIfDirty_def saveLabels_def
          split: option.splits)
  qed
qed

lemma currentFile_markerRun: "currentFile (snd (markerRun es c)) = currentFile (snd c)"
  by (induction es arbitrary: c) (simp_all add: currentFile_markerStep)

text \<open>
  C7 (as amended). While the current file is in the done list, turning the review flag of
  the segment shown on is rejected and leaves the state unchanged, and turning it off is
  accepted. While the current file is not in the done list and some segment has its review
  flag set, a press of the done button makes no call of the done-list interface and
  changes nothing. From a consistent session, every run of review toggles, segment
  navigation and done toggles whose reply (whatever it is) arrives before the next event
  keeps the session consistent, and then the current file is not in the done list and the
  review list at once. Two things are not covered: the lists as they are loaded, which
  nothing checks, and runs in which another handler runs between a press of the done
  button and the arrival of its reply.
\<close>

theorem review_done_exclusion:
  "(\<forall>f. currentFile s = Some f \<and> f \<in> set (doneFiles s) \<longrightarrow>
      (\<not> reviewAt (labels s) (currentSegment s) \<longrightarrow> toggleReview s = (Returns, s)) \<and>
      (reviewAt (labels s) (currentSegment s) \<longrightarrow>
         \<not> reviewAt (labels (snd (toggleReview s))) (currentSegment s))) \<and>
   (\<forall>f. currentFile s = Some f \<and> f \<notin> set (doneFiles s) \<and> hasReview (labels s) \<longrightarrow>
      toggleDone_request s = None \<and>
      markerStep DoneRequest (pending, s) = (pending, s) \<and>
      toggleDone result s = s) \<and>
   (consistent s \<and> list_all uninterrupted es \<longrightarrow>
      consistent (snd (markerRun es (pending, s))) \<and>
      (\<forall>f. currentFile (snd (markerRun es (pending, s))) = Some f \<longrightarrow>
           \<not> inDoneAndReview f (snd (markerRun es (pending, s)))))"
proof -
  have 1: "toggleDone_request s = None \<and>
      markerStep DoneRequest (pending, s) = (pending, s) \<and>
      toggleDone result s = s"
    if "currentFile s = Some f" "f \<notin> set (doneFiles s)" "hasReview (labels s)" for f
    using toggleDone_request_blocked [OF that] toggleDone_blocked [OF that]
    by simp
  have 2: "consistent (snd (markerRun es (pending, s)))"
    if "consistent s" "list_all uninterrupted es"
    using consistent_markerRun [OF that(2), of "(pending, s)"] that(1) by simp
  from 1 2 toggleReview_rejected [of s] toggleReview_off [of s]
    consistent_not_both [of "snd (markerRun es (pending, s))"]
  show ?thesis by blast
qed

theorem review_done_exclusion_witness:
  "currentFile doneState = Some ''rec1.h5'' \<and> ''rec1.h5'' \<in> set (doneFiles doneState) \<and>
   \<not> reviewAt (labels doneState) (currentSegment doneState) \<and>
   toggleReview doneState = (Returns, doneState) \<and>
   currentFile reviewState = Some ''rec1.h5'' \<and> ''rec1.h5'' \<notin> set (doneFiles reviewState) \<and>
   hasReview (labels reviewState) \<and>
   toggleDone_request reviewState = None \<and>
   toggleDone (True, [''rec1.h5'']) reviewState = reviewState \<and>
   consistent reviewState \<and>
   list_all uninterrupted
     [ToggleDone True [''rec1.h5''], ToggleReview, ToggleDone True [''rec1.h5'']] \<and>
   \<not> inDoneAndReview ''rec1.h5''
     (snd (markerRun [ToggleDone True [''rec1.h5''], ToggleReview, ToggleDone True [''rec1.h5'']]
        (0, reviewState)))"
proof -
  have d: "currentFile doneState = Some ''rec1.h5''" "''rec1.h5'' \<in> set (doneFiles doneState)"
    "\<not> reviewAt (labels doneState) (currentSegment doneState)"
    by (simp_all add: doneState_def exampleState_def initialState_def reviewAt_def
        exampleSegment_def)
  have r: "currentFile reviewState = Some ''rec1.h5''"
    "''rec1.h5'' \<notin> set (doneFiles reviewState)"
    "hasReview (labels reviewState)"
    by (simp_all add: reviewState_def exampleState_def initialState_def hasReview_def
        reviewAt_def)
  have c: "consistent reviewState"
    using r by (simp add: consistent_def) (simp add: reviewState_def)
  have u: "list_all uninterrupted
     [ToggleDone True [''rec1.h5''], ToggleReview, ToggleDone True [''rec1.h5'']]"
    by simp
  note all = review_done_exclusion [of doneState]
  from all d have 1: "toggleReview doneState = (Returns, doneState)" by blast
  note all2 = review_done_exclusion [of reviewState 0 "(True, [''rec1.h5''])"
      "[ToggleDone True [''rec1.h5''], ToggleReview, ToggleDone True [''rec1.h5'']]"]
  from all2 r have 2: "toggleDone_request reviewState = None"
    "toggleDone (True, [''rec1.h5'']) reviewState = reviewState" by blast+
  have cf: "currentFile (snd (markerRun
      [ToggleDone True [''rec1.h5''], ToggleReview, ToggleDone True [''rec1.h5'']]
      (0, reviewState))) = Some ''rec1.h5''"
    unfolding currentFile_markerRun using r(1) by simp
  from all2 c u cf have 3: "\<not> inDoneAndReview ''rec1.h5''
     (snd (markerRun [ToggleDone True [''rec1.h5''], ToggleReview, ToggleDone True [''rec1.h5'']]
        (0, reviewState)))"
    by blast
  from d r c u 1 2 3 show ?thesis by blast
qed

lemma exampleState_race:
  "snd (markerRun [DoneRequest, ToggleReview, DoneReply True [''rec1.h5'']] (0, exampleState)) =
     (snd (toggleReview exampleState))\<lparr>doneFiles := [''rec1.h5'']\<rparr>"
proof -
  have q: "toggleDone_request exampleState = Some ''rec1.h5''"
    by (simp add: toggleDone_request_def getSegmentsWithReview_def exampleState_def
        initialState_def reviewAt_def exampleSegment_def)
  then show ?thesis by (simp add: toggleDone_reply_def)
qed

text \<open>
  C7 as stated fails in its last part in two ways. \<open>loadFilesFromFolder\<close> stores the two lists
  as the interfaces deliver them, so a file that is in both on disk is in both in the
  state. And within a session that starts consistent, a review toggle that runs while the
  reply to a press of the done button is awaited is accepted, since the file is not yet in
  the done list, and the reply then puts the file into the done list although a segment is
  flagged for review.
\<close>

theorem review_done_load_counterexample:
  "inDoneAndReview ''rec1.h5''
     (loadFilesFromFolder True (True, [''rec1.h5'']) (True, [''rec1'']) initialState) \<and>
   consistent exampleState \<and>
   hasReview (labels (snd (markerRun [DoneRequest, ToggleReview, DoneReply True [''rec1.h5'']]
      (0, exampleState)))) \<and>
   inDoneAndReview ''rec1.h5''
     (snd (markerRun [DoneRequest, ToggleReview, DoneReply True [''rec1.h5'']]
        (0, exampleState)))"
proof -
  have 1: "inDoneAndReview ''rec1.h5''
     (loadFilesFromFolder True (True, [''rec1.h5'']) (True, [''rec1'']) initialState)"
    by (simp add: inDoneAndReview_def loadFilesFromFolder_def stripExtension_rec1)
  have 2: "consistent exampleState"
    by (simp add: consistent_def exampleState_def initialState_def)
  have l: "labels (snd (toggleReview exampleState)) = [(0, exampleSegment\<lparr>review := True\<rparr>)]"
    "reviewFiles (snd (toggleReview exampleState)) = [''rec1'']"
    by (simp_all add: toggleReview_def Let_def labels_markLabelsDirty markLabelsDirty_def
        scheduleAutoSave_def updateReviewFilesState_def stripExtension_rec1 hasReview_def
        reviewAt_def setCurrentLabels_def currentLabels_def exampleState_def initialState_def
        exampleSegment_def)
  have 3: "hasReview (labels (snd (markerRun
      [DoneRequest, ToggleReview, DoneReply True [''rec1.h5'']] (0, exampleState))))"
    unfolding exampleState_race by (simp add: l hasReview_def reviewAt_def)
  have 4: "inDoneAndReview ''rec1.h5''
     (snd (markerRun [DoneRequest, ToggleReview, DoneReply True [''rec1.h5'']]
        (0, exampleState)))"
    unfolding exampleState_race by (simp add: inDoneAndReview_def l stripExtension_rec1)
  from 1 2 3 4 show ?thesis by blast
qed



section \<open>Timeouts of the bridge\<close>

lemma settlementsOf_append:
  "settlementsOf i (b\<lparr>settled := settled b @ [(j, r)]\<rparr>) =
     settlementsOf i b @ (if j = i then [r] else [])"
  by (simp add: settlementsOf_def)

lemma timeoutCallback_other:
  "j \<noteq> i \<Longrightarrow>
   (j \<in> pendingCalls (timeoutCallback i b) \<longleftrightarrow> j \<in> pendingCalls b) \<and>
   settlementsOf j (timeoutCallback i b) = settlementsOf j b"
  by (simp add: timeoutCallback_def settlementsOf_def)

lemma timeoutCallback_fields:
  "messageId (timeoutCallback i b) = messageId b"
  "timeouts (timeoutCallback i b) = timeouts b"
  "now (timeoutCallback i b) = now b"
  "pythonProcess (timeoutCallback i b) = pythonProcess b"
  by (simp_all add: timeoutCallback_def)

lemma timeoutCallback_own:
  "i \<in> pendingCalls b \<Longrightarrow>
   i \<notin> pendingCalls (timeoutCallback i b) \<and>
   settlementsOf i (timeoutCallback i b) = settlementsOf i b @ [Rejected CallTimeout]"
  by (simp add: timeoutCallback_def settlementsOf_def)

lemma timeoutCallback_gone:
  "i \<notin> pendingCalls b \<Longrightarrow> timeoutCallback i b = b"
  by (simp add: timeoutCallback_def)

lemma fireTimeouts_fields:
  "messageId (fireTimeouts ids b) = messageId b"
  "timeouts (fireTimeouts ids b) = timeouts b"
  "now (fireTimeouts ids b) = now b"
  "pythonProcess (fireTimeouts ids b) = pythonProcess b"
  by (induction ids arbitrary: b) (simp_all add: timeoutCallback_fields)

lemma fireTimeouts_gone:
  "i \<notin> pendingCalls b \<Longrightarrow>
   i \<notin> pendingCalls (fireTimeouts ids b) \<and>
   settlementsOf i (fireTimeouts ids b) = settlementsOf i b"
proof (induction ids arbitrary: b)
  case Nil
  then show ?case by simp
next
  case (Cons j ids)
  have "i \<notin> pendingCalls (timeoutCallback j b) \<and>
      settlementsOf i (timeoutCallback j b) = settlementsOf i b"
  proof (cases "j = i")
    case True
    with Cons.prems show ?thesis by (simp add: timeoutCallback_gone)
  next
    case False
    then have "i \<noteq> j" by simp
    from timeoutCallback_other [OF this, of b] Cons.prems show ?thesis by simp
  qed
  with Cons.IH [of "timeoutCallback j b"] show ?case by simp
qed

lemma fireTimeouts_pending:
  assumes "i \<in> pendingCalls b"
  shows "if i \<in> set ids
     then i \<notin> pendingCalls (fireTimeouts ids b) \<and>
          settlementsOf i (fireTimeouts ids b) = settlementsOf i b @ [Rejected CallTimeout]
     else i \<in> pendingCalls (fireTimeouts ids b) \<and>
          settlementsOf i (fireTimeouts ids b) = settlementsOf i b"
  using assms
proof (induction ids arbitrary: b)
  case Nil
  then show ?case by simp
next
  case (Cons j ids)
  show ?case
  proof (cases "j = i")
    case True
    from timeoutCallback_own [OF Cons.prems]
    have g: "i \<notin> pendingCalls (timeoutCallback i b)"
      and s: "settlementsOf i (timeoutCallback i b) = settlementsOf i b @ [Rejected CallTimeout]"
      by simp_all
    from fireTimeouts_gone [OF g, of ids] s True show ?thesis by simp
  next
    case False
    then have "i \<noteq> j" by simp
    from timeoutCallback_other [OF this, of b] Cons.prems
    have p: "i \<in> pendingCalls (timeoutCallback j b)"
      and s: "settlementsOf i (timeoutCallback j b) = settlementsOf i b"
      by simp_all
    from Cons.IH [OF p] s False show ?thesis by simp
  qed
qed

lemma handleMessage_other:
  "msg_id m \<noteq> Some i \<Longrightarrow>
   (i \<in> pendingCalls (handleMessage m b) \<longleftrightarrow> i \<in> pendingCalls b) \<and>
   settlementsOf i (handleMessage m b) = settlementsOf i b"
  by (auto simp: handleMessage_def settlementsOf_def split: option.splits)

lemma handleMessage_fields:
  "messageId (handleMessage m b) = messageId b"
  "timeouts (handleMessage m b) = timeouts b"
  "now (handleMessage m b) = now b"
  by (simp_all add: handleMessage_def split: option.splits)

lemma handleMessage_gone:
  "msg_id m = Some i \<Longrightarrow> i \<notin> pendingCalls b \<Longrightarrow> handleMessage m b = b"
  by (simp add: handleMessage_def)

lemma call_other:
  "i < messageId b \<Longrightarrow>
   (i \<in> pendingCalls (snd (call method params b)) \<longleftrightarrow> i \<in> pendingCalls b) \<and>
   settlementsOf i (snd (call method params b)) = settlementsOf i b \<and>
   i < messageId (snd (call method params b)) \<and>
   now (snd (call method params b)) = now b \<and>
   set (timeouts b) \<subseteq> set (timeouts (snd (call method params b)))"
  by (auto simp: call_def settlementsOf_def)

lemma now_advance: "now (advance d b) = now b + d"
  by (simp add: advance_def Let_def fireTimeouts_fields)

lemma messageId_advance: "messageId (advance d b) = messageId b"
  by (simp add: advance_def Let_def fireTimeouts_fields)

lemma timeouts_advance:
  "timeouts (advance d b) = filter (\<lambda>(due, i). \<not> due \<le> now b + d) (timeouts b)"
  by (simp add: advance_def Let_def fireTimeouts_fields)

lemma advance_gone:
  "i \<notin> pendingCalls b \<Longrightarrow>
   i \<notin> pendingCalls (advance d b) \<and> settlementsOf i (advance d b) = settlementsOf i b"
proof -
  assume "i \<notin> pendingCalls b"
  then have "i \<notin> pendingCalls (b\<lparr>now := now b + d,
      timeouts := filter (\<lambda>(due, i). \<not> due \<le> now b + d) (timeouts b)\<rparr>)"
    by simp
  from fireTimeouts_gone [OF this] show ?thesis
    by (simp add: advance_def Let_def settlementsOf_def)
qed

lemma awaiting_advance:
  assumes "awaiting i due b"
  shows "awaiting i due (advance d b)"
proof (cases "i \<in> pendingCalls b")
  case False
  with assms advance_gone [OF False, of d] show ?thesis
    by (simp add: awaiting_def messageId_advance)
next
  case True
  with assms have t: "(due, i) \<in> set (timeouts b)" and e: "settlementsOf i b = []"
    and lt: "i < messageId b"
    by (auto simp: awaiting_def)
  let ?b = "b\<lparr>now := now b + d,
      timeouts := filter (\<lambda>(due, i). \<not> due \<le> now b + d) (timeouts b)\<rparr>"
  let ?ids = "map snd (filter (\<lambda>(due, i). due \<le> now b + d) (timeouts b))"
  have adv: "advance d b = fireTimeouts ?ids ?b" by (simp add: advance_def Let_def)
  have p: "i \<in> pendingCalls ?b" using True by simp
  have s0: "settlementsOf i ?b = []" using e by (simp add: settlementsOf_def)
  note f = fireTimeouts_pending [OF p, of ?ids]
  show ?thesis
  proof (cases "i \<in> set ?ids")
    case True
    with f s0 lt show ?thesis
      by (simp add: awaiting_def adv fireTimeouts_fields)
  next
    case False
    with t have "\<not> due \<le> now b + d" by force
    with t False f s0 lt show ?thesis
      by (simp add: awaiting_def adv fireTimeouts_fields)
  qed
qed

lemma awaiting_step:
  assumes "awaiting i due b" "\<not> answers i e"
  shows "awaiting i due (bridgeStep e b)"
proof (cases e)
  case (Call name args)
  from assms(1) have "i < messageId b" by (simp add: awaiting_def)
  from call_other [OF this, of name args] assms(1) Call show ?thesis
    by (auto simp: awaiting_def)
next
  case (Inbound m)
  with assms(2) have "msg_id m \<noteq> Some i" by simp
  from handleMessage_other [OF this, of b] assms(1) Inbound show ?thesis
    by (simp add: awaiting_def handleMessage_fields)
next
  case (Advance d)
  with assms(1) show ?thesis by (simp add: awaiting_advance)
next
  case Start
  with assms(1) show ?thesis by (simp add: awaiting_def settlementsOf_def)
next
  case Close
  with assms(1) show ?thesis by (simp add: awaiting_def settlementsOf_def)
qed

lemma now_bridgeStep:
  "now (bridgeStep e b) = now b + waited [e]"
  by (cases e) (simp_all add: call_def handleMessage_fields now_advance)

lemma waited_Cons: "waited (e # es) = waited [e] + waited es"
  by (cases e) simp_all

lemma awaiting_run:
  "awaiting i due b \<Longrightarrow> \<forall>e\<in>set es. \<not> answers i e \<Longrightarrow>
   awaiting i due (bridgeRun es b) \<and> now (bridgeRun es b) = now b + waited es"
proof (induction es arbitrary: b)
  case Nil
  then show ?case by simp
next
  case (Cons e es)
  from Cons.prems have "awaiting i due (bridgeStep e b)"
    by (simp add: awaiting_step)
  from Cons.IH [OF this] Cons.prems(2)
  show ?case
    using waited_Cons [of e es] by (simp add: now_bridgeStep)
qed

lemma gone_step:
  assumes "i < messageId b" "i \<notin> pendingCalls b"
  shows "i < messageId (bridgeStep e b) \<and> i \<notin> pendingCalls (bridgeStep e b) \<and>
     settlementsOf i (bridgeStep e b) = settlementsOf i b"
proof (cases e)
  case (Call name args)
  from call_other [OF assms(1), of name args] assms(2) Call show ?thesis by simp
next
  case (Inbound m)
  show ?thesis
  proof (cases "msg_id m = Some i")
    case True
    with assms Inbound show ?thesis by (simp add: handleMessage_gone)
  next
    case False
    from handleMessage_other [OF False, of b] assms Inbound show ?thesis
      by (simp add: handleMessage_fields)
  qed
next
  case (Advance d)
  from advance_gone [OF assms(2), of d] assms(1) Advance show ?thesis
    by (simp add: messageId_advance)
next
  case Start
  with assms show ?thesis by (simp add: settlementsOf_def)
next
  case Close
  with assms show ?thesis by (simp add: settlementsOf_def)
qed

lemma gone_run:
  "i < messageId b \<Longrightarrow> i \<notin> pendingCalls b \<Longrightarrow>
   i \<notin> pendingCalls (bridgeRun es b) \<and> settlementsOf i (bridgeRun es b) = settlementsOf i b"
proof (induction es arbitrary: b)
  case Nil
  then show ?case by simp
next
  case (Cons e es)
  from gone_step [OF Cons.prems, of e]
  have s: "i < messageId (bridgeStep e b)" "i \<notin> pendingCalls (bridgeStep e b)"
    "settlementsOf i (bridgeStep e b) = settlementsOf i b"
    by simp_all
  from Cons.IH [OF s(1,2)] s(3) show ?case by simp
qed

lemma awaiting_call:
  assumes "bridgeInv b" "pythonProcess b"
  shows "fst (call method params b) = Inr (messageId b)"
    and "awaiting (messageId b) (now b + 30000) (snd (call method params b))"
    and "now (snd (call method params b)) = now b"
proof -
  from assms(1) have "\<forall>(j, r)\<in>set (settled b). j \<noteq> messageId b"
    by (auto simp: bridgeInv_def)
  then have "filter (\<lambda>(j, r). j = messageId b) (settled b) = []"
    by (auto simp: filter_empty_conv)
  then have e: "settlementsOf (messageId b) b = []"
    by (simp add: settlementsOf_def)
  show "fst (call method params b) = Inr (messageId b)"
    using assms(2) by (simp add: call_def)
  show "awaiting (messageId b) (now b + 30000) (snd (call method params b))"
    using assms(2) e by (simp add: call_def awaiting_def settlementsOf_def)
  show "now (snd (call method params b)) = now b"
    using assms(2) by (simp add: call_def)
qed

text \<open>
  C3. Take a bridge in a state its operations can reach, with the process running, and a
  call made then; its id is the current counter. If the events that follow bring no
  message with that id and at least 30000 ms pass in them, then afterwards the call is no
  longer pending and has been settled exactly once, by a rejection with the timeout error.
  The timeout callback of this call leaves every other call as it was, pending or not,
  with the same settlements. A message with that id that arrives afterwards leaves the
  bridge unchanged, and whatever happens later the call keeps its single settlement.
\<close>

theorem call_times_out:
  assumes "bridgeInv b" and "pythonProcess b"
    and "\<forall>e\<in>set es. \<not> answers (messageId b) e"
    and "30000 \<le> waited es"
  shows "fst (call method params b) = Inr (messageId b) \<and>
     messageId b \<notin> pendingCalls (bridgeRun es (snd (call method params b))) \<and>
     settlementsOf (messageId b) (bridgeRun es (snd (call method params b))) =
       [Rejected CallTimeout] \<and>
     (\<forall>j c. j \<noteq> messageId b \<longrightarrow>
        (j \<in> pendingCalls (timeoutCallback (messageId b) c) \<longleftrightarrow> j \<in> pendingCalls c) \<and>
        settlementsOf j (timeoutCallback (messageId b) c) = settlementsOf j c) \<and>
     (\<forall>m. msg_id m = Some (messageId b) \<longrightarrow>
        handleMessage m (bridgeRun es (snd (call method params b))) =
          bridgeRun es (snd (call method params b))) \<and>
     (\<forall>es'. settlementsOf (messageId b)
               (bridgeRun es' (bridgeRun es (snd (call method params b)))) =
             [Rejected CallTimeout])"
proof -
  let ?i = "messageId b"
  let ?b1 = "snd (call method params b)"
  let ?b2 = "bridgeRun es ?b1"
  note c = awaiting_call [OF assms(1,2), of "method" "params"]
  from awaiting_run [OF c(2) assms(3)] c(3)
  have a: "awaiting ?i (now b + 30000) ?b2" and n: "now ?b2 = now b + waited es"
    by simp_all
  from a n assms(4) have gone: "?i \<notin> pendingCalls ?b2"
    and rej: "settlementsOf ?i ?b2 = [Rejected CallTimeout]"
    and lt: "?i < messageId ?b2"
    by (auto simp: awaiting_def)
  have other: "(j \<in> pendingCalls (timeoutCallback ?i c) \<longleftrightarrow> j \<in> pendingCalls c) \<and>
        settlementsOf j (timeoutCallback ?i c) = settlementsOf j c"
    if "j \<noteq> ?i" for j c
    using that by (rule timeoutCallback_other)
  have late: "handleMessage m ?b2 = ?b2" if "msg_id m = Some ?i" for m
    using that gone by (rule handleMessage_gone)
  have never: "settlementsOf ?i (bridgeRun es' ?b2) = [Rejected CallTimeout]" for es'
    using gone_run [OF lt gone, of es'] rej by simp
  from c(1) gone rej other late never show ?thesis by blast
qed

lemma bridgeInv_newBridge: "bridgeInv newBridge"
  by (simp add: bridgeInv_def newBridge_def)

lemma bridgeInv_call: "bridgeInv b \<Longrightarrow> bridgeInv (snd (call method params b))"
  by (fastforce simp: bridgeInv_def call_def)

lemma bridgeInv_handleMessage: "bridgeInv b \<Longrightarrow> bridgeInv (handleMessage m b)"
  by (fastforce simp: bridgeInv_def handleMessage_def split: option.splits)

lemma bridgeInv_timeoutCallback: "bridgeInv b \<Longrightarrow> bridgeInv (timeoutCallback i b)"
  by (fastforce simp: bridgeInv_def timeoutCallback_def)

lemma bridgeInv_fireTimeouts: "bridgeInv b \<Longrightarrow> bridgeInv (fireTimeouts ids b)"
  by (induction ids arbitrary: b) (simp_all add: bridgeInv_timeoutCallback)

lemma bridgeInv_advance: "bridgeInv b \<Longrightarrow> bridgeInv (advance d b)"
proof -
  assume "bridgeInv b"
  then have "bridgeInv (b\<lparr>now := now b + d,
      timeouts := filter (\<lambda>(due, i). \<not> due \<le> now b + d) (timeouts b)\<rparr>)"
    by (fastforce simp: bridgeInv_def)
  then show ?thesis
    by (simp add: advance_def Let_def bridgeInv_fireTimeouts)
qed

lemma bridgeInv_step: "bridgeInv b \<Longrightarrow> bridgeInv (bridgeStep e b)"
  by (cases e)
    (simp_all add: bridgeInv_call bridgeInv_handleMessage bridgeInv_advance, 
     simp_all add: bridgeInv_def)

lemma bridgeInv_run: "bridgeInv b \<Longrightarrow> bridgeInv (bridgeRun es b)"
  by (induction es arbitrary: b) (simp_all add: bridgeInv_step)

theorem call_times_out_witness:
  "bridgeInv startedBridge \<and> pythonProcess startedBridge \<and>
   \<not> list_ex (answers (messageId startedBridge)) exampleTraffic \<and>
   30000 \<le> waited exampleTraffic \<and>
   fst (call ''get_segment'' ''{}'' startedBridge) = Inr 0 \<and>
   settlementsOf 0 (bridgeRun exampleTraffic (snd (call ''get_segment'' ''{}'' startedBridge))) =
     [Rejected CallTimeout] \<and>
   settlementsOf 0 (bridgeRun [Inbound lateReply]
      (bridgeRun exampleTraffic (snd (call ''get_segment'' ''{}'' startedBridge)))) =
     [Rejected CallTimeout]"
proof -
  have i: "messageId startedBridge = 0"
    by (simp add: startedBridge_def newBridge_def)
  have h: "bridgeInv startedBridge" "pythonProcess startedBridge"
    "\<forall>e\<in>set exampleTraffic. \<not> answers (messageId startedBridge) e"
    "30000 \<le> waited exampleTraffic"
    by (simp_all add: i exampleTraffic_def)
      (simp_all add: startedBridge_def newBridge_def bridgeInv_def)
  note all = call_times_out [OF h, of "''get_segment''" "''{}''", unfolded i]
  note later = all [THEN conjunct2, THEN conjunct2, THEN conjunct2, THEN conjunct2,
      THEN conjunct2, rule_format, of "[Inbound lateReply]"]
  from h(3) have "\<not> list_ex (answers (messageId startedBridge)) exampleTraffic"
    by (simp add: list_ex_iff)
  with all later h show ?thesis
    unfolding i by blast
qed


section \<open>The guards of the pointer conversion\<close>

lemma clickedIndex_not_finite:
  "\<forall>r. t \<noteq> Fin r \<Longrightarrow> \<exists>v. clickedIndex t s = NotFinite v"
  by (cases t) (simp_all add: clickedIndex_def)

lemma handleDirectClick_guard:
  assumes "\<not> regionSelectionMode s"
    and "fullLayout_xaxis g = None \<or>
         (\<exists>ax. fullLayout_xaxis g = Some ax \<and> isNaN (clickedTime ev (bbox_left g) ax))"
  shows "handleDirectClick ev g s = Returned s"
  using assms by (auto simp: handleDirectClick_def)

lemma eraseAtPositionNoUpdate_guard:
  assumes "fullLayout_xaxis g = None \<or>
         (\<exists>ax. fullLayout_xaxis g = Some ax \<and> (\<forall>r. clickedTime ev (bbox_left g) ax \<noteq> Fin r))"
  shows "eraseAtPositionNoUpdate ev g s = (Undefined, s)"
proof (cases "fullLayout_xaxis g")
  case None
  then show ?thesis by (simp add: eraseAtPositionNoUpdate_def)
next
  case (Some ax)
  with assms have nf: "\<forall>r. clickedTime ev (bbox_left g) ax \<noteq> Fin r" by simp
  from clickedIndex_not_finite [OF nf, of s] obtain v
    where "clickedIndex (clickedTime ev (bbox_left g) ax) s = NotFinite v" ..
  with Some show ?thesis by (simp add: eraseAtPositionNoUpdate_def)
qed

lemma clickedTime_zero_width:
  assumes "axis_length ax = 0"
  shows "isNaN (clickedTime ev left ax) \<longleftrightarrow>
     clientX ev - left - axis_offset ax = 0 \<or> range1 ax = range0 ax"
  using assms by (simp add: clickedTime_def)

text \<open>
  C9 (as amended). The Normal-mode click returns without touching the state whenever the
  plot has no x axis or the computed time is NaN; the eraser step does so whenever the plot
  has no x axis or the computed time is not a finite number. The width of the plot is not
  examined: with a width of zero the time is NaN exactly when the pointer is at the left
  edge of the plot area or the visible range is empty.
\<close>

theorem pointer_guard_is_nan_only:
  "(\<not> regionSelectionMode s \<and>
    (fullLayout_xaxis g = None \<or>
     (\<exists>ax. fullLayout_xaxis g = Some ax \<and> isNaN (clickedTime ev (bbox_left g) ax))) \<longrightarrow>
      handleDirectClick ev g s = Returned s) \<and>
   (fullLayout_xaxis g = None \<or>
    (\<exists>ax. fullLayout_xaxis g = Some ax \<and> (\<forall>r. clickedTime ev (bbox_left g) ax \<noteq> Fin r)) \<longrightarrow>
      eraseAtPositionNoUpdate ev g s = (Undefined, s)) \<and>
   (\<forall>ax. axis_length ax = 0 \<longrightarrow>
      (isNaN (clickedTime ev (bbox_left g) ax) \<longleftrightarrow>
       clientX ev - bbox_left g - axis_offset ax = 0 \<or> range1 ax = range0 ax))"
  using handleDirectClick_guard [of s g ev] eraseAtPositionNoUpdate_guard [of g ev s]
    clickedTime_zero_width [of _ ev "bbox_left g"]
  by blast

theorem pointer_guard_is_nan_only_witness:
  "\<not> regionSelectionMode exampleState \<and>
   fullLayout_xaxis zeroWidthGraph =
     Some \<lparr>axis_offset = 0, axis_length = 0, range0 = 0, range1 = 8\<rparr> \<and>
   isNaN (clickedTime edgePointer (bbox_left zeroWidthGraph)
     \<lparr>axis_offset = 0, axis_length = 0, range0 = 0, range1 = 8\<rparr>) \<and>
   handleDirectClick edgePointer zeroWidthGraph exampleState = Returned exampleState \<and>
   eraseAtPositionNoUpdate edgePointer zeroWidthGraph exampleState = (Undefined, exampleState)"
proof -
  let ?ax = "\<lparr>axis_offset = 0, axis_length = 0, range0 = 0, range1 = 8 :: rat\<rparr>"
  have a: "\<not> regionSelectionMode exampleState"
    by (simp add: exampleState_def initialState_def)
  have b: "fullLayout_xaxis zeroWidthGraph = Some ?ax"
    by (simp add: zeroWidthGraph_def)
  have c: "isNaN (clickedTime edgePointer (bbox_left zeroWidthGraph) ?ax)"
    by (simp add: clickedTime_def edgePointer_def zeroWidthGraph_def)
  then have d: "\<forall>r. clickedTime edgePointer (bbox_left zeroWidthGraph) ?ax \<noteq> Fin r"
    by auto
  note all = pointer_guard_is_nan_only [of exampleState zeroWidthGraph edgePointer]
  from all a b c have 1: "handleDirectClick edgePointer zeroWidthGraph exampleState =
      Returned exampleState"
    by blast
  from all b d have 2: "eraseAtPositionNoUpdate edgePointer zeroWidthGraph exampleState =
      (Undefined, exampleState)"
    by blast
  from a b c 1 2 show ?thesis by blast
qed

lemma negativeWidth_index:
  "clickedIndex (clickedTime (examplePointer False) 0
      \<lparr>axis_offset = 0, axis_length = - 1000, range0 = 0, range1 = 8\<rparr>) exampleState =
     Index (- 12)"
  by (simp add: clickedIndex_def clickedTime_def examplePointer_def samplingRate_def
      exampleState_def initialState_def Math_round_neg_numeral)

text \<open>
  C9 as stated fails for a width that is not positive: with a negative width the time is
  finite and the click inserts a point (here at index -12), and with a width of zero and
  the pointer off the left edge the time is infinite, which the \<open>isNaN\<close> guard lets through.
\<close>

theorem pointer_guard_counterexample:
  "(\<exists>ax. fullLayout_xaxis negativeWidthGraph = Some ax \<and> axis_length ax \<le> 0) \<and>
   handleDirectClick (examplePointer False) negativeWidthGraph exampleState =
     Returned (snd (handleDirectClick_index (- 12) exampleState)) \<and>
   map_of (label_indexes (currentLabels False (snd (handleDirectClick_index (- 12) exampleState))))
     compression_systolic_points = Some [- 12, 10, 16] \<and>
   map_of (label_indexes (currentLabels False exampleState)) compression_systolic_points =
     Some [10, 16] \<and>
   (\<exists>ax. fullLayout_xaxis zeroWidthGraph = Some ax \<and> axis_length ax \<le> 0 \<and>
      clickedTime (examplePointer False) (bbox_left zeroWidthGraph) ax = PInf) \<and>
   handleDirectClick (examplePointer False) zeroWidthGraph exampleState = NonFiniteIndex PInf"
proof -
  let ?seg1 = "exampleSegment
      \<lparr>labeled := True,
       label_indexes :=
         AList.update compression_systolic_points (sort ([10, 16] @ [- 12]))
           (label_indexes exampleSegment)\<rparr>"
  have far: "noneNear TOLERANCE (- 12) (label_indexes exampleSegment)"
    by (simp add: noneNear_def labelTypes_def exampleSegment_def near_def TOLERANCE_def)
  have m: "map_of (label_indexes exampleSegment) compression_systolic_points = Some [10, 16]"
    by (simp add: exampleSegment_def)
  have t: "toggleSegment (- 12) (currentLabelType exampleState)
      (currentLabels False exampleState) = Added ?seg1"
    unfolding exampleState_current using far m by (rule toggleSegment_add)
  have i: "handleDirectClick_index (- 12) exampleState =
      updateDisplay_markLabelsDirty (setCurrentLabels ?seg1 exampleState)"
    by (rule handleDirectClick_index_stored) (simp add: t)
  have k: "\<forall>t. map_of (label_indexes ?seg1) t \<noteq> None"
  proof
    fix t show "map_of (label_indexes ?seg1) t \<noteq> None"
      by (cases t) (simp_all add: exampleSegment_def)
  qed
  have r: "fst (handleDirectClick_index (- 12) exampleState) = Returns"
    unfolding i using updateDisplay_markLabelsDirty_stored [of ?seg1 exampleState] k by blast
  obtain e s' where es: "handleDirectClick_index (- 12) exampleState = (e, s')"
    by (cases "handleDirectClick_index (- 12) exampleState")
  with r have e: "e = Returns" by simp
  have 1: "handleDirectClick (examplePointer False) negativeWidthGraph exampleState =
     Returned (snd (handleDirectClick_index (- 12) exampleState))"
    by (simp add: handleDirectClick_def negativeWidthGraph_def negativeWidth_index es e)
      (simp add: examplePointer_def exampleState_def initialState_def clickedTime_def)
  have "currentLabels False (snd (handleDirectClick_index (- 12) exampleState)) = ?seg1"
    by (rule currentLabels_handleDirectClick_index) (simp add: t)
  then have 2: "map_of (label_indexes (currentLabels False
      (snd (handleDirectClick_index (- 12) exampleState)))) compression_systolic_points =
      Some [- 12, 10, 16]"
    by (simp add: update_conv')
  have 3: "map_of (label_indexes (currentLabels False exampleState))
      compression_systolic_points = Some [10, 16]"
    by (simp add: exampleState_current exampleSegment_def)
  have 4: "clickedTime (examplePointer False) (bbox_left zeroWidthGraph)
      \<lparr>axis_offset = 0, axis_length = 0, range0 = 0, range1 = 8\<rparr> = PInf"
    by (simp add: clickedTime_def examplePointer_def zeroWidthGraph_def)
  have 5: "handleDirectClick (examplePointer False) zeroWidthGraph exampleState =
      NonFiniteIndex PInf"
    using 4
    by (simp add: handleDirectClick_def zeroWidthGraph_def clickedIndex_def samplingRate_def)
      (simp add: examplePointer_def exampleState_def initialState_def)
  from 1 2 3 4 5 show ?thesis
    by (simp add: negativeWidthGraph_def zeroWidthGraph_def)
qed



end
